theory Spec2Isabelle
  imports Main
begin

section \<open>The test queue of index.js\<close>

text \<open>
  A \<^verbatim>\<open>TestQueue\<close> holds an ordered list of named tests, a setup and a teardown
  function and the flag \<^verbatim>\<open>stopOnFail\<close>. A test is a function taking the two
  callbacks \<^verbatim>\<open>pass\<close> and \<^verbatim>\<open>fail\<close>, or another \<^verbatim>\<open>TestQueue\<close>. \<^verbatim>\<open>run\<close> works
  through the list with promises: every continuation is the callback of a
  \<^verbatim>\<open>then\<close>, which the promise library calls in a later turn of the event loop.

  The embedding is a machine whose state holds the queue objects that are
  running (innermost first), the callbacks that have been scheduled and not yet
  called, and a trace of what has been done. One step of the machine calls one
  scheduled callback; the methods of index.js are functions on the state.

  The scope of the embedding: one \<^verbatim>\<open>run\<close> of a queue, the first or a later one.
  A queue object is described as it is when it is dispatched: with the
  listeners that earlier dispatches have left on it, to which
  \<^verbatim>\<open>_testQueueNext\<close> appends its own. A listener that does not emit on a running
  queue only observes, which the trace stands for, and is left out; no listener
  throws. Promises follow the promise library: the value an executor returns is
  ignored, the first call of \<^verbatim>\<open>pass\<close> or \<^verbatim>\<open>fail\<close> or a throw settles the promise,
  and a \<^verbatim>\<open>then\<close>-callback is called in a later turn.
\<close>

subsection \<open>Values, user functions, promises\<close>

text \<open>The object \<^verbatim>\<open>{ passed: ..., failed: ... }\<close> built by \<^verbatim>\<open>_onFinish\<close>.\<close>

record results =
  passed :: nat
  failed :: nat

text \<open>
  JavaScript values that travel through the queue: test names, the values
  given to \<^verbatim>\<open>pass\<close> and \<^verbatim>\<open>fail\<close>, thrown values, arguments of events. None of
  them is a promise or another thenable.
\<close>

datatype jsval =
    Undefined
  | Str string
  | Num int
  | Error string
  | Obj results

text \<open>The state of a promise.\<close>

datatype 'a promise = Pending | Fulfilled 'a | Rejected 'a

text \<open>
  What a setup or teardown function does when it is called: it returns a value
  that is no promise, returns a promise that is fulfilled later, throws, returns
  a promise that is rejected later, or returns a promise that stays pending.
\<close>

datatype hook =
    Returns
  | Fulfils
  | Throws jsval
  | Rejects jsval
  | Hangs

text \<open>
  What a test function does with \<^verbatim>\<open>this\<close> and its two callbacks: the calls it
  makes, in order (the calls made before it returns or throws, then the ones it
  makes later if it returned), and the way its invocation ends. It can emit an
  \<^verbatim>\<open>info\<close> event on the queue it is bound to. The list ends where the callback
  for the outcome of the test is called: what a test function does after that
  is not part of the embedding.
\<close>

datatype act =
    CallPass jsval
  | CallFail jsval
  | EmitInfo "jsval list"

datatype ending =
    Return
  | ReturnRejected jsval
  | Throw jsval

datatype leaf = Leaf (acts: "act list") (ending: ending)

text \<open>
  \<^verbatim>\<open>new Promise(fn)\<close> of the promise library: \<^verbatim>\<open>fn\<close> is called at once with the
  two settling functions; the first call of either settles the promise and every
  later call is ignored; an exception that leaves \<^verbatim>\<open>fn\<close> rejects the promise
  unless it is settled already; the value \<^verbatim>\<open>fn\<close> returns is not looked at.
\<close>

fun first_call :: "act list \<Rightarrow> jsval promise" where
  "first_call [] = Pending"
| "first_call (CallPass v # as) = Fulfilled v"
| "first_call (CallFail e # as) = Rejected e"
| "first_call (EmitInfo args # as) = first_call as"

definition new_Promise :: "leaf \<Rightarrow> jsval promise" where
  "new_Promise fn =
     (case first_call (acts fn) of
        Pending \<Rightarrow> (case ending fn of Throw e \<Rightarrow> Rejected e | _ \<Rightarrow> Pending)
      | settled \<Rightarrow> settled)"

text \<open>
  \<^verbatim>\<open>p.then(f, g)\<close>: the callback that is scheduled once the promise has the
  given state, \<^verbatim>\<open>f\<close> with the value or \<^verbatim>\<open>g\<close> with the reason, and none while it is
  pending.
\<close>

definition promise_then :: "'a promise \<Rightarrow> ('a \<Rightarrow> 'c) \<Rightarrow> ('a \<Rightarrow> 'c) \<Rightarrow> 'c list" where
  "promise_then p f g =
     (case p of Pending \<Rightarrow> [] | Fulfilled v \<Rightarrow> [f v] | Rejected e \<Rightarrow> [g e])"

text \<open>
  \<^verbatim>\<open>Promise.resolve(h()).then(f)\<close> for a setup or teardown function that does not
  throw: \<^verbatim>\<open>f\<close> is scheduled when \<^verbatim>\<open>h\<close> returned a plain value or a promise that
  is fulfilled; a rejection finds no callback and nothing is scheduled.
\<close>

definition hook_then :: "hook \<Rightarrow> 'c \<Rightarrow> 'c list" where
  "hook_then h f = (case h of Returns \<Rightarrow> [f] | Fulfils \<Rightarrow> [f] | _ \<Rightarrow> [])"

subsection \<open>The queue object\<close>

text \<open>
  A listener registered on a queue by the queue that contains it:
  \<^verbatim>\<open>this.emit.bind(this, ev, args...)\<close>, and the function that re-emits
  \<^verbatim>\<open>finish\<close> with its first argument and the name of the test.
\<close>

datatype handler =
    EmitBind string "jsval list"
  | FinishHandler jsval

text \<open>
  The fields the constructor sets: \<^verbatim>\<open>stopOnFail\<close>, \<^verbatim>\<open>setupFn\<close>, \<^verbatim>\<open>teardownFn\<close>
  and \<^verbatim>\<open>tests\<close>, a list of \<^verbatim>\<open>{ name, fn }\<close>; and the listeners of the event
  emitter, each with the event it is registered for, in the order of their
  registration. Nothing in index.js removes a listener: the listeners that
  \<^verbatim>\<open>_testQueueNext\<close> of the containing queue has registered in an earlier run,
  or for an earlier entry holding the same object, are still there when the
  object is dispatched again.
\<close>

datatype testqueue =
  TestQueue (stopOnFail: bool) (setupFn: hook) (teardownFn: hook)
    (tests: "(jsval \<times> runnable) list") (registered: "(string \<times> handler) list")
and runnable = Fn leaf | Queue testqueue

text \<open>
  \<^verbatim>\<open>new TestQueue(options)\<close>: \<^verbatim>\<open>options.stopOnFail !== false\<close>, so a missing
  option gives true; both functions start as \<^verbatim>\<open>function(){}\<close>; the event
  emitter starts without listeners.
\<close>

definition new_TestQueue :: "bool option \<Rightarrow> testqueue" where
  "new_TestQueue opt = TestQueue (opt \<noteq> Some False) Returns Returns [] []"

definition addTest :: "jsval \<Rightarrow> runnable \<Rightarrow> testqueue \<Rightarrow> testqueue" where
  "addTest name fn q =
     TestQueue (stopOnFail q) (setupFn q) (teardownFn q) (tests q @ [(name, fn)]) (registered q)"

definition setup_with :: "hook \<Rightarrow> testqueue \<Rightarrow> testqueue" where
  "setup_with fn q = TestQueue (stopOnFail q) fn (teardownFn q) (tests q) (registered q)"

definition teardown_with :: "hook \<Rightarrow> testqueue \<Rightarrow> testqueue" where
  "teardown_with fn q = TestQueue (stopOnFail q) (setupFn q) fn (tests q) (registered q)"

text \<open>\<^verbatim>\<open>on\<close> of the event emitter: the listener is appended.\<close>

definition on :: "string \<Rightarrow> handler \<Rightarrow> testqueue \<Rightarrow> testqueue" where
  "on ev h q =
     TestQueue (stopOnFail q) (setupFn q) (teardownFn q) (tests q) (registered q @ [(ev, h)])"

text \<open>
  A queue whose \<^verbatim>\<open>run\<close> is in progress: the object, the listeners it has
  during this run, the
  fields \<^verbatim>\<open>_testQueueCursor\<close>, \<^verbatim>\<open>passed\<close> and \<^verbatim>\<open>failed\<close> that \<^verbatim>\<open>run\<close> resets, and
  the name bound in the callbacks that the containing queue attached to the
  promise \<^verbatim>\<open>run\<close> returned (none for the outermost queue).
\<close>

record frame = results +
  self :: testqueue
  listeners :: "(string \<times> handler) list"
  cursor :: nat
  awaiter :: "jsval option"

subsection \<open>The machine\<close>

text \<open>The callbacks index.js passes to \<^verbatim>\<open>then\<close>.\<close>

datatype callback =
    StartThen
  | NextThen
  | OnPass jsval jsval
  | OnError jsval jsval
  | OnPassQueue jsval results
  | OnErrorQueue jsval results
  | TeardownThen results

text \<open>
  What the trace records. A queue is named by its depth: 0 for the outermost
  one, 1 for a queue it contains, and so on.
\<close>

datatype action =
    Emit nat string "jsval list"
  | Setup nat
  | Teardown nat
  | Dispatch nat nat
  | Settle nat "results promise"

record state =
  stack :: "frame list"
  scheduled :: "callback list"
  trace :: "action list"
  outcome :: "results promise"

definition initial :: state where
  "initial = \<lparr>stack = [], scheduled = [], trace = [], outcome = Pending\<rparr>"

subsection \<open>Events\<close>

definition handlers_for :: "string \<Rightarrow> (string \<times> handler) list \<Rightarrow> handler list" where
  "handlers_for ev ls = map snd (filter (\<lambda>l. fst l = ev) ls)"

definition first_arg :: "jsval list \<Rightarrow> jsval" where
  "first_arg args = (case args of [] \<Rightarrow> Undefined | a # _ \<Rightarrow> a)"

text \<open>
  \<^verbatim>\<open>emit\<close> of the event emitter, on the innermost queue of the given stack: the
  listeners for the event are called in the order of their registration, and a
  listener of the containing queue emits on that queue in turn.
\<close>

fun emit :: "frame list \<Rightarrow> string \<Rightarrow> jsval list \<Rightarrow> action list" where
  "emit [] ev args = []"
| "emit (this # parents) ev args =
     Emit (length parents) ev args #
     concat (map (\<lambda>h. case h of
                        EmitBind ev' bound \<Rightarrow> emit parents ev' (bound @ args)
                      | FinishHandler name \<Rightarrow> emit parents ''finish'' [first_arg args, name])
                 (handlers_for ev (listeners this)))"

text \<open>
  What one listener does when the queue above the given ones emits an event
  with the given arguments.
\<close>

definition handle :: "frame list \<Rightarrow> jsval list \<Rightarrow> handler \<Rightarrow> action list" where
  "handle parents args =
     (\<lambda>h. case h of
            EmitBind ev' bound \<Rightarrow> emit parents ev' (bound @ args)
          | FinishHandler name \<Rightarrow> emit parents ''finish'' [first_arg args, name])"

text \<open>The five listeners \<^verbatim>\<open>_testQueueNext\<close> registers on a nested queue.\<close>

definition relays :: "jsval \<Rightarrow> (string \<times> handler) list" where
  "relays name =
     [(''pass'', EmitBind ''pass'' []),
      (''fail'', EmitBind ''fail'' []),
      (''info'', EmitBind ''info'' []),
      (''start'', EmitBind ''start'' [name]),
      (''finish'', FinishHandler name)]"

text \<open>The object on which they have been registered.\<close>

definition with_relays :: "jsval \<Rightarrow> testqueue \<Rightarrow> testqueue" where
  "with_relays name q = fold (\<lambda>l. on (fst l) (snd l)) (relays name) q"

text \<open>The \<^verbatim>\<open>info\<close> events a test function emits on its queue.\<close>

fun infos :: "frame list \<Rightarrow> act list \<Rightarrow> action list" where
  "infos st [] = []"
| "infos st (EmitInfo args # as) = emit st ''info'' args @ infos st as"
| "infos st (a # as) = infos st as"

subsection \<open>The methods\<close>

text \<open>
  \<^verbatim>\<open>run\<close>, called on a queue object with the given listeners: the object becomes
  the innermost running queue with its three fields reset, and the setup
  function is called. The first component is the exception that leaves \<^verbatim>\<open>run\<close>,
  if one does.
\<close>

definition run :: "testqueue \<Rightarrow> (string \<times> handler) list \<Rightarrow> state \<Rightarrow> jsval option \<times> state" where
  "run q ls s =
     (let this = \<lparr>passed = 0, failed = 0, self = q, listeners = ls, cursor = 0, awaiter = None\<rparr>;
          s1 = s\<lparr>stack := this # stack s, trace := trace s @ [Setup (length (stack s))]\<rparr>
      in case setupFn q of
           Throws e \<Rightarrow> (Some e, s1)
         | h \<Rightarrow> (None, s1\<lparr>scheduled := scheduled s1 @ hook_then h StartThen\<rparr>))"

text \<open>
  \<^verbatim>\<open>_onFinish\<close>: the results are emitted, the teardown function is called, and the
  callback that settles the promise of \<^verbatim>\<open>run\<close> is attached to what it returned.
  An exception of the teardown function leaves \<^verbatim>\<open>_onFinish\<close> and its callers and
  ends in the \<^verbatim>\<open>then\<close> that called them.
\<close>

definition onFinish :: "state \<Rightarrow> state" where
  "onFinish s =
     (case stack s of
        [] \<Rightarrow> s
      | this # parents \<Rightarrow>
          let res = \<lparr>passed = passed this, failed = failed this\<rparr>
          in s\<lparr>trace := trace s @ emit (stack s) ''finish'' [Obj res] @ [Teardown (length parents)],
               scheduled := scheduled s @ hook_then (teardownFn (self this)) (TeardownThen res)\<rparr>)"

text \<open>
  \<^verbatim>\<open>_testQueueNext\<close>. Past the end of the list \<^verbatim>\<open>test\<close> is undefined and reading
  \<^verbatim>\<open>test.fn\<close> throws. A nested queue runs with the listeners it had and the five
  that are registered here. An exception of \<^verbatim>\<open>run\<close> of a nested queue leaves the
  method before the callbacks are attached and before the cursor is
  incremented.
\<close>

definition testQueueNext :: "state \<Rightarrow> state" where
  "testQueueNext s =
     (case stack s of
        [] \<Rightarrow> s
      | this # parents \<Rightarrow>
          if cursor this = length (tests (self this)) then onFinish s
          else if length (tests (self this)) < cursor this then s
          else
            (case tests (self this) ! cursor this of
               (name, Queue q) \<Rightarrow>
                 (case run q (registered (with_relays name q))
                         (s\<lparr>trace := trace s @ [Dispatch (length parents) (cursor this)]\<rparr>) of
                    (Some e, s') \<Rightarrow> s'
                  | (None, s') \<Rightarrow>
                      (case stack s' of
                         child # this' # ps \<Rightarrow>
                           s'\<lparr>stack := child\<lparr>awaiter := Some name\<rparr>
                                         # this'\<lparr>cursor := cursor this' + 1\<rparr> # ps\<rparr>
                       | _ \<Rightarrow> s'))
             | (name, Fn fn) \<Rightarrow>
                 s\<lparr>trace := trace s @ [Dispatch (length parents) (cursor this)]
                                   @ infos (stack s) (acts fn),
                   scheduled := scheduled s @
                     promise_then (new_Promise fn) (OnPass name) (OnError name),
                   stack := this\<lparr>cursor := cursor this + 1\<rparr> # parents\<rparr>))"

definition onPassQueue :: "jsval \<Rightarrow> results \<Rightarrow> state \<Rightarrow> state" where
  "onPassQueue name res s =
     (case stack s of
        [] \<Rightarrow> s
      | this # parents \<Rightarrow>
          testQueueNext (s\<lparr>stack := this\<lparr>passed := passed this + passed res\<rparr> # parents\<rparr>))"

definition onPass :: "jsval \<Rightarrow> jsval \<Rightarrow> state \<Rightarrow> state" where
  "onPass name v s =
     (case stack s of
        [] \<Rightarrow> s
      | this # parents \<Rightarrow>
          let st = this\<lparr>passed := passed this + 1\<rparr> # parents
          in testQueueNext (s\<lparr>stack := st, trace := trace s @ emit st ''pass'' [name, v]\<rparr>))"

text \<open>\<^verbatim>\<open>_onErrorQueue\<close>; its \<^verbatim>\<open>console.log\<close> is left out.\<close>

definition onErrorQueue :: "jsval \<Rightarrow> results \<Rightarrow> state \<Rightarrow> state" where
  "onErrorQueue name res s =
     (case stack s of
        [] \<Rightarrow> s
      | this # parents \<Rightarrow>
          let s1 = s\<lparr>stack := this\<lparr>failed := failed this + failed res,
                                     passed := passed this + passed res\<rparr> # parents\<rparr>
          in if stopOnFail (self this) then onFinish s1 else testQueueNext s1)"

definition onError :: "jsval \<Rightarrow> jsval \<Rightarrow> state \<Rightarrow> state" where
  "onError name e s =
     (case stack s of
        [] \<Rightarrow> s
      | this # parents \<Rightarrow>
          let st = this\<lparr>failed := failed this + 1\<rparr> # parents;
              s1 = s\<lparr>stack := st, trace := trace s @ emit st ''fail'' [name, e]\<rparr>
          in if stopOnFail (self this) then onFinish s1 else testQueueNext s1)"

text \<open>
  The callback of \<^verbatim>\<open>_onFinish\<close>: the promise of \<^verbatim>\<open>run\<close> is rejected with the results
  when \<^verbatim>\<open>this.failed > 0\<close> and fulfilled with them otherwise. For a nested queue
  this schedules the callback its container attached; the run of the nested
  queue is over and the container is the innermost running queue again.
\<close>

definition settle :: "results \<Rightarrow> state \<Rightarrow> state" where
  "settle res s =
     (case stack s of
        [] \<Rightarrow> s
      | this # parents \<Rightarrow>
          let p = (if failed this > 0 then Rejected res else Fulfilled res);
              s1 = s\<lparr>trace := trace s @ [Settle (length parents) p]\<rparr>
          in (case parents of
                [] \<Rightarrow> s1\<lparr>outcome := p\<rparr>
              | _ # _ \<Rightarrow>
                  (case awaiter this of
                     None \<Rightarrow> s1\<lparr>stack := parents\<rparr>
                   | Some name \<Rightarrow>
                       s1\<lparr>stack := parents,
                          scheduled := scheduled s1 @
                            promise_then p (OnPassQueue name) (OnErrorQueue name)\<rparr>)))"

text \<open>The two callbacks of \<^verbatim>\<open>run\<close> and the call of a scheduled callback.\<close>

fun call :: "callback \<Rightarrow> state \<Rightarrow> state" where
  "call StartThen s = s\<lparr>trace := trace s @ emit (stack s) ''start'' [],
                        scheduled := scheduled s @ [NextThen]\<rparr>"
| "call NextThen s = testQueueNext s"
| "call (OnPass name v) s = onPass name v s"
| "call (OnError name e) s = onError name e s"
| "call (OnPassQueue name res) s = onPassQueue name res s"
| "call (OnErrorQueue name res) s = onErrorQueue name res s"
| "call (TeardownThen res) s = settle res s"

definition step :: "state \<Rightarrow> state" where
  "step s = (case scheduled s of [] \<Rightarrow> s | c # cs \<Rightarrow> call c (s\<lparr>scheduled := cs\<rparr>))"

primrec steps :: "nat \<Rightarrow> state \<Rightarrow> state" where
  "steps 0 s = s"
| "steps (Suc n) s = steps n (step s)"

text \<open>\<^verbatim>\<open>queue.run()\<close> called by the user, with no queue running.\<close>

definition launch :: "testqueue \<Rightarrow> state" where
  "launch q = snd (run q (registered q) initial)"

subsection \<open>Notions used in the statements\<close>

text \<open>
  A setup or teardown function completes when it returns a plain value or a
  promise that is fulfilled.
\<close>

definition completes :: "hook \<Rightarrow> bool" where
  "completes h = (h = Returns \<or> h = Fulfils)"

text \<open>
  An entry that is a test function and passes (its promise is fulfilled), and
  one that is a test function and fails (its promise is rejected).
\<close>

fun passing :: "jsval \<times> runnable \<Rightarrow> bool" where
  "passing (name, Fn fn) = (case new_Promise fn of Fulfilled v \<Rightarrow> True | _ \<Rightarrow> False)"
| "passing (name, Queue q) = False"

fun failing :: "jsval \<times> runnable \<Rightarrow> bool" where
  "failing (name, Fn fn) = (case new_Promise fn of Rejected e \<Rightarrow> True | _ \<Rightarrow> False)"
| "failing (name, Queue q) = False"

text \<open>
  What the outermost queue records for a test function at index \<open>i\<close>: its
  dispatch, the \<^verbatim>\<open>info\<close> events of the function, and the \<^verbatim>\<open>pass\<close> or \<^verbatim>\<open>fail\<close>
  event once its promise has settled.
\<close>

fun info_events :: "act list \<Rightarrow> action list" where
  "info_events [] = []"
| "info_events (EmitInfo args # as) = Emit 0 ''info'' args # info_events as"
| "info_events (a # as) = info_events as"

fun entry_trace :: "nat \<Rightarrow> jsval \<times> runnable \<Rightarrow> action list" where
  "entry_trace i (name, Fn fn) =
     Dispatch 0 i # info_events (acts fn) @
     promise_then (new_Promise fn) (\<lambda>v. Emit 0 ''pass'' [name, v]) (\<lambda>e. Emit 0 ''fail'' [name, e])"
| "entry_trace i (name, Queue q) = []"

fun entries_trace :: "nat \<Rightarrow> (jsval \<times> runnable) list \<Rightarrow> action list" where
  "entries_trace i [] = []"
| "entries_trace i (e # es) = entry_trace i e @ entries_trace (Suc i) es"

fun is_Dispatch :: "action \<Rightarrow> bool" where
  "is_Dispatch (Dispatch d i) = True"
| "is_Dispatch a = False"

subsection \<open>Example queues\<close>

text \<open>A test that calls \<^verbatim>\<open>pass()\<close> and one that calls \<^verbatim>\<open>fail\<close> with an error.\<close>

definition passes :: leaf where "passes = Leaf [CallPass Undefined] Return"
definition fails :: leaf where "fails = Leaf [CallFail (Error ''E'')] Return"

text \<open>The queue of three tests \<^verbatim>\<open>a\<close>, \<^verbatim>\<open>b\<close>, \<^verbatim>\<open>c\<close> of which the second fails.\<close>

definition pass_fail_pass :: "bool option \<Rightarrow> testqueue" where
  "pass_fail_pass opt =
     addTest (Str ''c'') (Fn passes)
       (addTest (Str ''b'') (Fn fails)
         (addTest (Str ''a'') (Fn passes) (new_TestQueue opt)))"

text \<open>Two tests that pass, and two tests that fail in a queue that goes on.\<close>

definition two_passes :: testqueue where
  "two_passes =
     addTest (Str ''y'') (Fn passes) (addTest (Str ''x'') (Fn passes) (new_TestQueue None))"

definition two_fails :: testqueue where
  "two_fails =
     addTest (Str ''y'') (Fn fails) (addTest (Str ''x'') (Fn fails) (new_TestQueue (Some False)))"

text \<open>
  Queues with a nested queue: two passing tests in a nested queue and then a
  failing test; a nested queue of two failing tests; a nested queue of two
  passing tests.
\<close>

definition nested_then_fail :: testqueue where
  "nested_then_fail =
     addTest (Str ''b'') (Fn fails)
       (addTest (Str ''sub'') (Queue two_passes) (new_TestQueue None))"

definition failing_nested :: testqueue where
  "failing_nested = addTest (Str ''sub'') (Queue two_fails) (new_TestQueue None)"

definition nested_passes :: testqueue where
  "nested_passes = addTest (Str ''sub'') (Queue two_passes) (new_TestQueue None)"

text \<open>
  The last queue when it is run a second time: the nested queue has kept the
  five listeners of the first run.
\<close>

definition nested_passes_again :: testqueue where
  "nested_passes_again =
     addTest (Str ''sub'') (Queue (with_relays (Str ''sub'') two_passes)) (new_TestQueue None)"


text \<open>A queue with a teardown function that throws.\<close>

definition throwing_teardown :: "testqueue \<Rightarrow> testqueue" where
  "throwing_teardown q = teardown_with (Throws (Error ''T'')) q"

text \<open>
  A queue that stops on failure and holds one nested queue, which goes on after
  a failure and has two passing tests and a failing one.
\<close>

definition nested_mixed :: testqueue where
  "nested_mixed = addTest (Str ''sub'') (Queue (pass_fail_pass (Some False))) (new_TestQueue None)"

text \<open>
  A test that throws, one that returns a rejected promise, one that does
  neither and never calls a callback; the queue of a single test.
\<close>

definition throws :: leaf where "throws = Leaf [] (Throw (Error ''X''))"
definition returns_rejected :: leaf where "returns_rejected = Leaf [] (ReturnRejected (Error ''R''))"

definition one_test :: "leaf \<Rightarrow> testqueue" where
  "one_test fn = addTest (Str ''t'') (Fn fn) (new_TestQueue None)"

text \<open>
  A queue that goes on after a failure, with a test that throws and one that
  passes, and the queue that holds it as its only entry.
\<close>

definition throws_then_passes :: testqueue where
  "throws_then_passes =
     addTest (Str ''u'') (Fn passes) (addTest (Str ''t'') (Fn throws) (new_TestQueue (Some False)))"

definition nested_throws :: testqueue where
  "nested_throws = addTest (Str ''sub'') (Queue throws_then_passes) (new_TestQueue None)"

subsection \<open>A summary of one step\<close>

text \<open>
  Every callback but the first one of \<^verbatim>\<open>run\<close> and the one of \<^verbatim>\<open>_onFinish\<close> updates
  the counters of its queue, may emit an event, and goes on with
  \<^verbatim>\<open>_testQueueNext\<close> or \<^verbatim>\<open>_onFinish\<close>.
\<close>

fun account :: "callback \<Rightarrow> frame \<Rightarrow> frame" where
  "account (OnPass name v) this = this\<lparr>passed := passed this + 1\<rparr>"
| "account (OnError name e) this = this\<lparr>failed := failed this + 1\<rparr>"
| "account (OnPassQueue name res) this = this\<lparr>passed := passed this + passed res\<rparr>"
| "account (OnErrorQueue name res) this =
     this\<lparr>failed := failed this + failed res, passed := passed this + passed res\<rparr>"
| "account c this = this"

fun announces :: "callback \<Rightarrow> frame list \<Rightarrow> action list" where
  "announces (OnPass name v) st = emit st ''pass'' [name, v]"
| "announces (OnError name e) st = emit st ''fail'' [name, e]"
| "announces c st = []"

fun settling :: "callback \<Rightarrow> bool" where
  "settling (TeardownThen res) = True"
| "settling c = False"

text \<open>
  What \<^verbatim>\<open>_testQueueNext\<close> and \<^verbatim>\<open>_onFinish\<close> do to the stack, and the callbacks and
  the actions they add.
\<close>

inductive proceeds :: "frame list \<Rightarrow> frame list \<Rightarrow> callback list \<Rightarrow> action list \<Rightarrow> bool" where
  finishes:
    "proceeds (this # parents) (this # parents)
       (hook_then (teardownFn (self this)) (TeardownThen \<lparr>passed = passed this, failed = failed this\<rparr>))
       (emit (this # parents) ''finish'' [Obj \<lparr>passed = passed this, failed = failed this\<rparr>]
          @ [Teardown (length parents)])"
| rests: "proceeds st st [] []"
| calls_test:
    "cursor this < length (tests (self this)) \<Longrightarrow>
     tests (self this) ! cursor this = (name, Fn fn) \<Longrightarrow>
     proceeds (this # parents) (this\<lparr>cursor := cursor this + 1\<rparr> # parents)
       (promise_then (new_Promise fn) (OnPass name) (OnError name))
       (Dispatch (length parents) (cursor this) # infos (this # parents) (acts fn))"
| runs_queue:
    "cursor this < length (tests (self this)) \<Longrightarrow>
     tests (self this) ! cursor this = (name, Queue q) \<Longrightarrow>
     \<forall>e. setupFn q \<noteq> Throws e \<Longrightarrow>
     proceeds (this # parents)
       (\<lparr>passed = 0, failed = 0, self = q, listeners = registered q @ relays name,
          cursor = 0, awaiter = Some name\<rparr>
          # this\<lparr>cursor := cursor this + 1\<rparr> # parents)
       (hook_then (setupFn q) StartThen)
       [Dispatch (length parents) (cursor this), Setup (Suc (length parents))]"
| run_throws:
    "cursor this < length (tests (self this)) \<Longrightarrow>
     tests (self this) ! cursor this = (name, Queue q) \<Longrightarrow>
     setupFn q = Throws e \<Longrightarrow>
     proceeds (this # parents)
       (\<lparr>passed = 0, failed = 0, self = q, listeners = registered q @ relays name,
          cursor = 0, awaiter = None\<rparr>
          # this # parents)
       []
       [Dispatch (length parents) (cursor this), Setup (Suc (length parents))]"

text \<open>The same for the call of a callback.\<close>

inductive effect :: "callback \<Rightarrow> frame list \<Rightarrow> frame list \<Rightarrow> callback list \<Rightarrow> action list \<Rightarrow> bool" where
  starts: "effect StartThen st st [NextThen] (emit st ''start'' [])"
| handles:
    "c \<noteq> StartThen \<Longrightarrow> \<not> settling c \<Longrightarrow>
     proceeds (account c this # parents) st' cbs tr \<Longrightarrow>
     effect c (this # parents) st' cbs (announces c (this # parents) @ tr)"
| settles_outermost:
    "effect (TeardownThen res) [this] [this] []
       [Settle 0 (if failed this > 0 then Rejected res else Fulfilled res)]"
| settles_nested:
    "effect (TeardownThen res) (this # parent # ps) (parent # ps)
       (case awaiter this of
          None \<Rightarrow> []
        | Some name \<Rightarrow>
            promise_then (if failed this > 0 then Rejected res else Fulfilled res)
              (OnPassQueue name) (OnErrorQueue name))
       [Settle (Suc (length ps)) (if failed this > 0 then Rejected res else Fulfilled res)]"
| no_queue: "effect c [] [] [] []"

subsection \<open>The phases of a run\<close>

text \<open>
  The object \<^verbatim>\<open>results\<close> that \<^verbatim>\<open>_onFinish\<close> builds from the counters of a queue, and
  what the callback of \<^verbatim>\<open>_onFinish\<close> does with the promise of \<^verbatim>\<open>run\<close>.
\<close>

definition results_of :: "frame \<Rightarrow> results" where
  "results_of this = \<lparr>passed = passed this, failed = failed this\<rparr>"

definition settlement :: "frame \<Rightarrow> results promise" where
  "settlement this =
     (if failed this > 0 then Rejected (results_of this) else Fulfilled (results_of this))"

text \<open>An action of the outermost queue that belongs to the end of its run.\<close>

fun final_action :: "action \<Rightarrow> bool" where
  "final_action (Teardown d) = (d = 0)"
| "final_action (Settle d p) = (d = 0)"
| "final_action a = False"

text \<open>
  The three phases of the run of the outermost queue: before \<^verbatim>\<open>_onFinish\<close> is
  called on it, between that call and the callback of the teardown function,
  and after that callback.
\<close>

definition running :: "state \<Rightarrow> bool" where
  "running s \<longleftrightarrow>
     outcome s = Pending \<and> (\<forall>a\<in>set (trace s). \<not> final_action a) \<and>
     (\<forall>r. TeardownThen r \<in> set (scheduled s) \<longrightarrow> 2 \<le> length (stack s))"

definition finishing :: "state \<Rightarrow> bool" where
  "finishing s \<longleftrightarrow>
     (\<exists>this pre. stack s = [this] \<and>
        trace s = pre @ [Emit 0 ''finish'' [Obj \<lparr>passed = passed this, failed = failed this\<rparr>],
                         Teardown 0] \<and>
        (\<forall>a\<in>set pre. \<not> final_action a) \<and> outcome s = Pending \<and>
        scheduled s = hook_then (teardownFn (self this))
                        (TeardownThen \<lparr>passed = passed this, failed = failed this\<rparr>))"

definition settled :: "state \<Rightarrow> bool" where
  "settled s \<longleftrightarrow>
     (\<exists>this pre. stack s = [this] \<and>
        trace s = pre @ [Emit 0 ''finish'' [Obj \<lparr>passed = passed this, failed = failed this\<rparr>],
                         Teardown 0, Settle 0 (outcome s)] \<and>
        (\<forall>a\<in>set pre. \<not> final_action a) \<and>
        outcome s = (if failed this > 0
                     then Rejected \<lparr>passed = passed this, failed = failed this\<rparr>
                     else Fulfilled \<lparr>passed = passed this, failed = failed this\<rparr>) \<and>
        completes (teardownFn (self this)) \<and> scheduled s = [])"

text \<open>
  A scheduled callback of \<^verbatim>\<open>_onFinish\<close>, at any depth of nesting, carries the
  results of the innermost running queue, whose teardown function has
  completed; the last actions were the \<^verbatim>\<open>finish\<close> event of this queue and the
  call of its teardown function.
\<close>

definition winding_up :: "state \<Rightarrow> bool" where
  "winding_up s \<longleftrightarrow>
     (\<forall>r. TeardownThen r \<in> set (scheduled s) \<longrightarrow>
        (\<exists>this parents pre. stack s = this # parents \<and> r = results_of this \<and>
           completes (teardownFn (self this)) \<and>
           trace s = pre @ emit (stack s) ''finish'' [Obj r] @ [Teardown (length parents)]))"

definition run_of :: "testqueue \<Rightarrow> state \<Rightarrow> bool" where
  "run_of q s \<longleftrightarrow>
     stack s \<noteq> [] \<and> self (last (stack s)) = q \<and> length (scheduled s) \<le> 1 \<and>
     (running s \<or> finishing s \<or> settled s)"

subsection \<open>Nested queues and their listeners\<close>

text \<open>A setup function that throws, and an entry whose \<^verbatim>\<open>run\<close> throws for that reason.\<close>

fun hook_throws :: "hook \<Rightarrow> bool" where
  "hook_throws (Throws e) = True"
| "hook_throws h = False"


text \<open>
  The index of the entry of \<open>parent\<close> that holds the running queue \<open>sub\<close> above
  it: the entry that \<open>parent\<close> has dispatched last. The cursor has gone past it,
  unless \<^verbatim>\<open>run\<close> of \<open>sub\<close> threw, which left the cursor on it and no callback
  attached.
\<close>

definition entry_of :: "frame \<Rightarrow> frame \<Rightarrow> nat" where
  "entry_of sub parent = (if awaiter sub = None then cursor parent else cursor parent - 1)"

text \<open>
  Every running queue but the outermost one is the queue of that entry of the
  queue below it on the stack, and its listeners are the ones the object had
  and after them the five that \<^verbatim>\<open>_testQueueNext\<close> registers with the name of the
  entry.
\<close>

fun relayed :: "frame list \<Rightarrow> bool" where
  "relayed (sub # parent # rest) =
     (awaiter sub =
        (if hook_throws (setupFn (self sub)) then None
         else Some (fst (tests (self parent) ! entry_of sub parent))) \<and>
      (awaiter sub = None \<or> 0 < cursor parent) \<and>
      entry_of sub parent < length (tests (self parent)) \<and>
      snd (tests (self parent) ! entry_of sub parent) = Queue (self sub) \<and>
      listeners sub =
        registered (self sub) @ relays (fst (tests (self parent) ! entry_of sub parent)) \<and>
      relayed (parent # rest))"
| "relayed st = True"

text \<open>
  What the listeners do that were on the object of \<open>sub\<close> before it was
  dispatched, when \<open>sub\<close> emits an event.
\<close>

definition earlier :: "frame \<Rightarrow> frame list \<Rightarrow> string \<Rightarrow> jsval list \<Rightarrow> action list" where
  "earlier sub parents ev args =
     concat (map (handle parents args) (handlers_for ev (registered (self sub))))"

text \<open>The index of the entry that the queue at depth \<open>d\<close> has dispatched last.\<close>

fun last_dispatch :: "nat \<Rightarrow> action list \<Rightarrow> nat option" where
  "last_dispatch d [] = None"
| "last_dispatch d (a # tr) =
     (case last_dispatch d tr of
        Some i \<Rightarrow> Some i
      | None \<Rightarrow> (case a of Dispatch d' i \<Rightarrow> if d' = d then Some i else None | _ \<Rightarrow> None))"

text \<open>
  For every running queue but the outermost one, the queue below it on the
  stack has dispatched last the entry at the index given above.
\<close>

fun traced :: "frame list \<Rightarrow> action list \<Rightarrow> bool" where
  "traced (sub # parent # rest) tr =
     (last_dispatch (length rest) tr = Some (entry_of sub parent) \<and> traced (parent # rest) tr)"
| "traced st tr = True"

subsection \<open>The order of dispatch\<close>

text \<open>The indices of the entries the outermost queue has dispatched, in order.\<close>

fun dispatched :: "action list \<Rightarrow> nat list" where
  "dispatched [] = []"
| "dispatched (Dispatch d i # tr) = (if d = 0 then i # dispatched tr else dispatched tr)"
| "dispatched (a # tr) = dispatched tr"




subsection \<open>Failures that stay counted\<close>

text \<open>
  The failures that a scheduled callback is about to add to the counter of its
  queue: those of a nested queue whose promise was rejected.
\<close>

fun carried :: "callback \<Rightarrow> nat" where
  "carried (OnErrorQueue name res) = failed res"
| "carried c = 0"

text \<open>
  The failures counted so far in the queue at depth \<open>d\<close> and in the queues nested
  in it: the failed counters of the running queues from the innermost one down
  to depth \<open>d\<close>, and what a scheduled callback carries.
\<close>

definition tally :: "nat \<Rightarrow> state \<Rightarrow> nat" where
  "tally d s =
     sum_list (map failed (take (length (stack s) - d) (stack s))) +
     sum_list (map carried (scheduled s))"

text \<open>The first settlement of a promise at depth \<open>d\<close> in a list of actions.\<close>

fun first_settle :: "nat \<Rightarrow> action list \<Rightarrow> results promise option" where
  "first_settle d [] = None"
| "first_settle d (Settle d' p # tr) = (if d' = d then Some p else first_settle d tr)"
| "first_settle d (a # tr) = first_settle d tr"

fun failures :: "results promise \<Rightarrow> nat" where
  "failures (Fulfilled r) = failed r"
| "failures (Rejected r) = failed r"
| "failures Pending = 0"

text \<open>
  At least \<open>k\<close> failures stay counted in the queue that runs at depth \<open>d\<close>, given
  the actions \<open>tr\<close> since some moment of its run: while its promise has not been
  settled the queue is running and the tally at its depth is at least \<open>k\<close>, and
  once it has been settled the results count at least \<open>k\<close> failures.
\<close>

definition kept :: "nat \<Rightarrow> nat \<Rightarrow> action list \<Rightarrow> state \<Rightarrow> bool" where
  "kept k d tr s =
     (case first_settle d tr of
        None \<Rightarrow> d < length (stack s) \<and> k \<le> tally d s
      | Some p \<Rightarrow> k \<le> failures p)"

text \<open>
  While a callback is scheduled, every running queue but the outermost one has
  the callbacks of the queue that contains it attached to its promise.
\<close>

definition awaited :: "state \<Rightarrow> bool" where
  "awaited s \<longleftrightarrow> (scheduled s \<noteq> [] \<longrightarrow> (\<forall>f\<in>set (butlast (stack s)). awaiter f \<noteq> None))"

definition sound :: "state \<Rightarrow> bool" where
  "sound s \<longleftrightarrow> length (scheduled s) \<le> 1 \<and> winding_up s \<and> awaited s"

text \<open>
  The promise of the run of the outermost queue counts at least \<open>k\<close> failures:
  the tally while it is pending, the results once it is settled, and then
  nothing is scheduled any more.
\<close>

definition counted :: "nat \<Rightarrow> state \<Rightarrow> bool" where
  "counted k s \<longleftrightarrow>
     stack s \<noteq> [] \<and>
     (case outcome s of
        Pending \<Rightarrow> k \<le> tally 0 s
      | Fulfilled r \<Rightarrow> k \<le> failed r \<and> scheduled s = []
      | Rejected r \<Rightarrow> k \<le> failed r \<and> scheduled s = [])"

section \<open>Properties\<close>

subsection \<open>Events and single steps\<close>

lemma emit_single: "emit [this] ev args = [Emit 0 ev args]"
  by (simp split: handler.split)

lemma emit_listeners:
  "map listeners st = map listeners st' \<Longrightarrow> emit st ev args = emit st' ev args"
proof (induction st arbitrary: st' ev args)
  case Nil
  then show ?case by simp
next
  case (Cons a st)
  then obtain b st'' where st': "st' = b # st''" by (cases st') auto
  with Cons.prems have l: "listeners a = listeners b" and m: "map listeners st = map listeners st''"
    by auto
  have len: "length st = length st''" using m by (metis length_map)
  show ?case unfolding st' by (simp add: Cons.IH[OF m] l len)
qed

lemma infos_listeners:
  assumes "map listeners st = map listeners st'"
  shows "infos st as = infos st' as"
proof (induction as)
  case Nil
  show ?case by simp
next
  case (Cons a as)
  then show ?case by (cases a) (simp_all add: emit_listeners[OF assms])
qed

lemma emit_depth:
  "a \<in> set (emit st ev args) \<Longrightarrow> \<exists>d ev' args'. a = Emit d ev' args' \<and> d < length st"
proof (induction st arbitrary: ev args a)
  case Nil
  then show ?case by simp
next
  case (Cons this parents)
  from Cons.prems have "a = Emit (length parents) ev args \<or>
      (\<exists>h. a \<in> set (case h of
                 EmitBind ev' bound \<Rightarrow> emit parents ev' (bound @ args)
               | FinishHandler name \<Rightarrow> emit parents ''finish'' [first_arg args, name]))"
    by auto
  then consider "a = Emit (length parents) ev args"
    | ev' args' where "a \<in> set (emit parents ev' args')"
  proof (elim disjE exE)
    fix h
    assume "a \<in> set (case h of
                 EmitBind ev' bound \<Rightarrow> emit parents ev' (bound @ args)
               | FinishHandler name \<Rightarrow> emit parents ''finish'' [first_arg args, name])"
      and "\<And>ev' args'. a \<in> set (emit parents ev' args') \<Longrightarrow> thesis"
    then show thesis by (cases h) auto
  qed
  then show ?case
  proof cases
    case 1
    then show ?thesis by simp
  next
    case 2
    from Cons.IH[OF 2] show ?thesis by auto
  qed
qed

lemma infos_depth:
  "a \<in> set (infos st as) \<Longrightarrow> \<exists>d ev' args'. a = Emit d ev' args' \<and> d < length st"
proof (induction as)
  case Nil
  then show ?case by simp
next
  case (Cons x as)
  then show ?case by (cases x) (auto dest: emit_depth)
qed

lemma registered_with_relays [simp]:
  "registered (with_relays name q) = registered q @ relays name"
  by (simp add: with_relays_def relays_def on_def)

lemma emit_handle:
  "emit (c # ps) ev args =
     Emit (length ps) ev args # concat (map (handle ps args) (handlers_for ev (listeners c)))"
  by (simp add: handle_def)

lemma emit_relays:
  assumes "listeners c = reg @ relays name"
  shows "emit (c # ps) ''pass'' args =
           Emit (length ps) ''pass'' args #
           concat (map (handle ps args) (handlers_for ''pass'' reg)) @ emit ps ''pass'' args"
    and "emit (c # ps) ''fail'' args =
           Emit (length ps) ''fail'' args #
           concat (map (handle ps args) (handlers_for ''fail'' reg)) @ emit ps ''fail'' args"
    and "emit (c # ps) ''info'' args =
           Emit (length ps) ''info'' args #
           concat (map (handle ps args) (handlers_for ''info'' reg)) @ emit ps ''info'' args"
    and "emit (c # ps) ''start'' args =
           Emit (length ps) ''start'' args #
           concat (map (handle ps args) (handlers_for ''start'' reg)) @ emit ps ''start'' (name # args)"
    and "emit (c # ps) ''finish'' args =
           Emit (length ps) ''finish'' args #
           concat (map (handle ps args) (handlers_for ''finish'' reg)) @
           emit ps ''finish'' [first_arg args, name]"
  using assms by (simp_all add: emit_handle relays_def handlers_for_def handle_def)

declare emit.simps(2) [simp del]

lemma step_idle: "scheduled s = [] \<Longrightarrow> step s = s"
  by (simp add: step_def)

lemma step_call: "scheduled s = c # cs \<Longrightarrow> step s = call c (s\<lparr>scheduled := cs\<rparr>)"
  by (simp add: step_def)

lemma steps_idle: "scheduled s = [] \<Longrightarrow> steps n s = s"
  by (induction n) (simp_all add: step_idle)

lemma steps_add: "steps (m + n) s = steps n (steps m s)"
  by (induction m arbitrary: s) simp_all

lemma steps_Suc_right: "steps (Suc n) s = step (steps n s)"
  by (induction n arbitrary: s) simp_all

lemma onFinish_frame:
  "stack s = this # parents \<Longrightarrow>
   onFinish s =
     s\<lparr>trace := trace s @ emit (this # parents) ''finish'' [Obj \<lparr>passed = passed this, failed = failed this\<rparr>]
                       @ [Teardown (length parents)],
       scheduled := scheduled s @
         hook_then (teardownFn (self this)) (TeardownThen \<lparr>passed = passed this, failed = failed this\<rparr>)\<rparr>"
  by (simp add: onFinish_def Let_def)

lemma testQueueNext_end:
  "stack s = this # parents \<Longrightarrow> cursor this = length (tests (self this)) \<Longrightarrow>
   testQueueNext s = onFinish s"
  by (simp add: testQueueNext_def)

lemma testQueueNext_leaf:
  "stack s = this # parents \<Longrightarrow> cursor this < length (tests (self this)) \<Longrightarrow>
   tests (self this) ! cursor this = (name, Fn fn) \<Longrightarrow>
   testQueueNext s =
     s\<lparr>trace := trace s @ [Dispatch (length parents) (cursor this)] @ infos (this # parents) (acts fn),
       scheduled := scheduled s @ promise_then (new_Promise fn) (OnPass name) (OnError name),
       stack := this\<lparr>cursor := cursor this + 1\<rparr> # parents\<rparr>"
  by (simp add: testQueueNext_def)

lemma testQueueNext_queue:
  "stack s = this # parents \<Longrightarrow> cursor this < length (tests (self this)) \<Longrightarrow>
   tests (self this) ! cursor this = (name, Queue q) \<Longrightarrow>
   testQueueNext s =
     (case setupFn q of
        Throws e \<Rightarrow>
          s\<lparr>stack := \<lparr>passed = 0, failed = 0, self = q, listeners = registered q @ relays name,
                        cursor = 0, awaiter = None\<rparr> # this # parents,
            trace := trace s @ [Dispatch (length parents) (cursor this), Setup (Suc (length parents))]\<rparr>
      | h \<Rightarrow>
          s\<lparr>stack := \<lparr>passed = 0, failed = 0, self = q, listeners = registered q @ relays name,
                        cursor = 0, awaiter = Some name\<rparr>
                      # this\<lparr>cursor := cursor this + 1\<rparr> # parents,
            trace := trace s @ [Dispatch (length parents) (cursor this), Setup (Suc (length parents))],
            scheduled := scheduled s @ hook_then h StartThen\<rparr>)"
  by (simp add: testQueueNext_def run_def Let_def split: hook.split)


lemma infos_single: "infos [this] as = info_events as"
  by (induction as rule: info_events.induct) (simp_all add: emit_single)

lemma emit_update [simp]:
  "emit (this\<lparr>passed := p\<rparr> # ps) ev args = emit (this # ps) ev args"
  "emit (this\<lparr>failed := f\<rparr> # ps) ev args = emit (this # ps) ev args"
  "emit (this\<lparr>cursor := c\<rparr> # ps) ev args = emit (this # ps) ev args"
  "emit (this\<lparr>awaiter := w\<rparr> # ps) ev args = emit (this # ps) ev args"
  by (rule emit_listeners, simp)+

lemma infos_update [simp]:
  "infos (this\<lparr>passed := p\<rparr> # ps) as = infos (this # ps) as"
  "infos (this\<lparr>failed := f\<rparr> # ps) as = infos (this # ps) as"
  "infos (this\<lparr>cursor := c\<rparr> # ps) as = infos (this # ps) as"
  "infos (this\<lparr>awaiter := w\<rparr> # ps) as = infos (this # ps) as"
  by (rule infos_listeners, simp)+

lemma onPass_frame:
  "stack s = this # parents \<Longrightarrow>
   onPass name v s =
     testQueueNext (s\<lparr>stack := this\<lparr>passed := passed this + 1\<rparr> # parents,
                      trace := trace s @ emit (this # parents) ''pass'' [name, v]\<rparr>)"
  by (simp add: onPass_def Let_def)

lemma onError_frame:
  "stack s = this # parents \<Longrightarrow>
   onError name e s =
     (let s1 = s\<lparr>stack := this\<lparr>failed := failed this + 1\<rparr> # parents,
                  trace := trace s @ emit (this # parents) ''fail'' [name, e]\<rparr>
      in if stopOnFail (self this) then onFinish s1 else testQueueNext s1)"
  by (simp add: onError_def Let_def)

subsection \<open>Queues of test functions\<close>

text \<open>
  A stretch of test functions, none of which stops the queue, is worked through
  in as many steps as it has entries.
\<close>

lemma run_segment:
  assumes "tests (self this) = before @ seg @ rest" "cursor this = length before"
    and "\<forall>e\<in>set seg. passing e \<or> (failing e \<and> \<not> stopOnFail (self this))"
  shows "steps (length seg)
           (testQueueNext \<lparr>stack = [this], scheduled = [], trace = t, outcome = oc\<rparr>) =
         testQueueNext
           \<lparr>stack = [this\<lparr>passed := passed this + length (filter passing seg),
                           failed := failed this + length (filter failing seg),
                           cursor := cursor this + length seg\<rparr>],
            scheduled = [], trace = t @ entries_trace (cursor this) seg, outcome = oc\<rparr>"
  using assms
proof (induction seg arbitrary: this t before)
  case Nil
  show ?case by simp
next
  case (Cons e seg)
  obtain name r where e: "e = (name, r)" by (cases e)
  from Cons.prems(3) e obtain fn where r: "r = Fn fn" by (cases r) auto
  have lt: "cursor this < length (tests (self this))"
    and at: "tests (self this) ! cursor this = (name, Fn fn)"
    using Cons.prems(1,2) e r by (simp_all add: nth_append)
  let ?s = "\<lparr>stack = [this], scheduled = [], trace = t, outcome = oc\<rparr>"
  let ?this1 = "this\<lparr>cursor := cursor this + 1\<rparr>"
  let ?t1 = "t @ [Dispatch 0 (cursor this)] @ info_events (acts fn)"
  have next1: "testQueueNext ?s =
     \<lparr>stack = [?this1], scheduled = promise_then (new_Promise fn) (OnPass name) (OnError name),
      trace = ?t1, outcome = oc\<rparr>"
    using testQueueNext_leaf[of ?s this "[]", OF _ lt at] by (simp add: infos_single)
  from Cons.prems(3) e r consider
      v where "new_Promise fn = Fulfilled v"
    | x where "new_Promise fn = Rejected x" "\<not> stopOnFail (self this)"
    by (auto split: promise.splits)
  then show ?case
  proof cases
    case 1
    let ?this2 = "?this1\<lparr>passed := passed this + 1\<rparr>"
    let ?t2 = "?t1 @ [Emit 0 ''pass'' [name, v]]"
    have "step (testQueueNext ?s) =
          testQueueNext \<lparr>stack = [?this2], scheduled = [], trace = ?t2, outcome = oc\<rparr>"
      unfolding next1 using 1
      by (simp add: step_def promise_then_def onPass_frame[of _ ?this1 "[]"] emit_single)
    moreover have "steps (length seg)
          (testQueueNext \<lparr>stack = [?this2], scheduled = [], trace = ?t2, outcome = oc\<rparr>) =
         testQueueNext
           \<lparr>stack = [?this2\<lparr>passed := passed ?this2 + length (filter passing seg),
                             failed := failed ?this2 + length (filter failing seg),
                             cursor := cursor ?this2 + length seg\<rparr>],
            scheduled = [], trace = ?t2 @ entries_trace (cursor ?this2) seg, outcome = oc\<rparr>"
      by (rule Cons.IH[where before = "before @ [e]"]) (use Cons.prems in simp_all)
    ultimately show ?thesis using 1 e r by (cases this) (simp add: promise_then_def)
  next
    case 2
    let ?this2 = "?this1\<lparr>failed := failed this + 1\<rparr>"
    let ?t2 = "?t1 @ [Emit 0 ''fail'' [name, x]]"
    have "step (testQueueNext ?s) =
          testQueueNext \<lparr>stack = [?this2], scheduled = [], trace = ?t2, outcome = oc\<rparr>"
      unfolding next1 using 2
      by (simp add: step_def promise_then_def onError_frame[of _ ?this1 "[]"] emit_single)
    moreover have "steps (length seg)
          (testQueueNext \<lparr>stack = [?this2], scheduled = [], trace = ?t2, outcome = oc\<rparr>) =
         testQueueNext
           \<lparr>stack = [?this2\<lparr>passed := passed ?this2 + length (filter passing seg),
                             failed := failed ?this2 + length (filter failing seg),
                             cursor := cursor ?this2 + length seg\<rparr>],
            scheduled = [], trace = ?t2 @ entries_trace (cursor ?this2) seg, outcome = oc\<rparr>"
      by (rule Cons.IH[where before = "before @ [e]"]) (use Cons.prems in simp_all)
    ultimately show ?thesis using 2 e r by (cases this) (simp add: promise_then_def)
  qed
qed


lemma launch_completes:
  "completes (setupFn q) \<Longrightarrow>
   launch q = \<lparr>stack = [\<lparr>passed = 0, failed = 0, self = q, listeners = registered q, cursor = 0, awaiter = None\<rparr>],
               scheduled = [StartThen], trace = [Setup 0], outcome = Pending\<rparr>"
  by (auto simp: launch_def run_def initial_def completes_def hook_then_def)

lemma launch_started:
  "completes (setupFn q) \<Longrightarrow>
   steps 2 (launch q) =
     testQueueNext
       \<lparr>stack = [\<lparr>passed = 0, failed = 0, self = q, listeners = registered q, cursor = 0, awaiter = None\<rparr>],
        scheduled = [], trace = [Setup 0, Emit 0 ''start'' []], outcome = Pending\<rparr>"
  by (simp add: launch_completes numeral_2_eq_2 step_def emit_single)

lemma finish_settles:
  assumes "completes (teardownFn (self this))" "cursor this = length (tests (self this))"
  shows "steps (Suc m) (testQueueNext \<lparr>stack = [this], scheduled = [], trace = t, outcome = oc\<rparr>) =
     \<lparr>stack = [this], scheduled = [],
      trace = t @ [Emit 0 ''finish'' [Obj \<lparr>passed = passed this, failed = failed this\<rparr>], Teardown 0,
                   Settle 0 (if failed this > 0 then Rejected \<lparr>passed = passed this, failed = failed this\<rparr>
                             else Fulfilled \<lparr>passed = passed this, failed = failed this\<rparr>)],
      outcome = (if failed this > 0 then Rejected \<lparr>passed = passed this, failed = failed this\<rparr>
                 else Fulfilled \<lparr>passed = passed this, failed = failed this\<rparr>)\<rparr>"
proof -
  let ?s = "\<lparr>stack = [this], scheduled = [], trace = t, outcome = oc\<rparr>"
  let ?r = "\<lparr>passed = passed this, failed = failed this\<rparr>"
  have "testQueueNext ?s = \<lparr>stack = [this], scheduled = [TeardownThen ?r],
          trace = t @ [Emit 0 ''finish'' [Obj ?r], Teardown 0], outcome = oc\<rparr>"
    using assms testQueueNext_end[of ?s this "[]"] onFinish_frame[of ?s this "[]"]
    by (auto simp: emit_single completes_def hook_then_def)
  then have "step (testQueueNext ?s) = \<lparr>stack = [this], scheduled = [],
      trace = t @ [Emit 0 ''finish'' [Obj ?r], Teardown 0,
                   Settle 0 (if failed this > 0 then Rejected ?r else Fulfilled ?r)],
      outcome = (if failed this > 0 then Rejected ?r else Fulfilled ?r)\<rparr>"
    by (simp add: step_def settle_def Let_def)
  then show ?thesis by (simp add: steps_idle)
qed

text \<open>
  A queue of test functions that all settle and do not stop it, with a setup
  and a teardown function that complete: the state in which the run ends.
\<close>

lemma run_to_end:
  assumes "completes (setupFn q)" "completes (teardownFn q)"
    and "\<forall>e\<in>set (tests q). passing e \<or> (failing e \<and> \<not> stopOnFail q)"
  shows "steps (length (tests q) + 3 + m) (launch q) =
     \<lparr>stack = [\<lparr>passed = length (filter passing (tests q)),
                 failed = length (filter failing (tests q)),
                 self = q, listeners = registered q, cursor = length (tests q), awaiter = None\<rparr>],
      scheduled = [],
      trace = [Setup 0, Emit 0 ''start'' []] @ entries_trace 0 (tests q) @
              [Emit 0 ''finish'' [Obj \<lparr>passed = length (filter passing (tests q)),
                                        failed = length (filter failing (tests q))\<rparr>],
               Teardown 0,
               Settle 0 (if length (filter failing (tests q)) > 0
                         then Rejected \<lparr>passed = length (filter passing (tests q)),
                                        failed = length (filter failing (tests q))\<rparr>
                         else Fulfilled \<lparr>passed = length (filter passing (tests q)),
                                         failed = length (filter failing (tests q))\<rparr>)],
      outcome = (if length (filter failing (tests q)) > 0
                 then Rejected \<lparr>passed = length (filter passing (tests q)),
                                failed = length (filter failing (tests q))\<rparr>
                 else Fulfilled \<lparr>passed = length (filter passing (tests q)),
                                 failed = length (filter failing (tests q))\<rparr>)\<rparr>"
proof -
  let ?f0 = "\<lparr>passed = 0, failed = 0, self = q, listeners = registered q, cursor = 0, awaiter = None\<rparr>"
  have cnt: "length (tests q) + 3 + m = 2 + (length (tests q) + Suc m)" by simp
  have seg: "steps (length (tests q))
           (testQueueNext \<lparr>stack = [?f0], scheduled = [], trace = [Setup 0, Emit 0 ''start'' []], outcome = Pending\<rparr>) =
         testQueueNext
           \<lparr>stack = [?f0\<lparr>passed := passed ?f0 + length (filter passing (tests q)),
                           failed := failed ?f0 + length (filter failing (tests q)),
                           cursor := cursor ?f0 + length (tests q)\<rparr>],
            scheduled = [], trace = [Setup 0, Emit 0 ''start'' []] @ entries_trace (cursor ?f0) (tests q), outcome = Pending\<rparr>"
    by (rule run_segment[where before = "[]" and rest = "[]"]) (use assms in simp_all)
  show ?thesis
    unfolding cnt steps_add launch_started[OF assms(1)] seg
    by (subst finish_settles) (use assms in simp_all)
qed


lemma entries_trace_append:
  "entries_trace i (xs @ ys) = entries_trace i xs @ entries_trace (i + length xs) ys"
  by (induction xs arbitrary: i) simp_all

lemma passing_not_failing: "passing e \<Longrightarrow> \<not> failing e"
  by (cases e rule: passing.cases) (auto split: promise.splits)

lemma filter_all_passing:
  "\<forall>x\<in>set xs. passing x \<Longrightarrow> filter passing xs = xs \<and> filter failing xs = []"
  by (induction xs) (auto dest: passing_not_failing)

lemma hook_then_completes: "completes h \<Longrightarrow> hook_then h f = [f]"
  by (auto simp: completes_def hook_then_def)

text \<open>
  A queue that stops on failure, whose first failing entry is a test function
  preceded by passing test functions: the state in which the run ends.
\<close>

lemma run_stops:
  assumes "stopOnFail q" "tests q = before @ e # rest"
    and "\<forall>x\<in>set before. passing x" "failing e"
    and "completes (setupFn q)" "completes (teardownFn q)"
  shows "steps (length before + 4 + m) (launch q) =
     \<lparr>stack = [\<lparr>passed = length before, failed = 1, self = q, listeners = registered q,
                 cursor = Suc (length before), awaiter = None\<rparr>],
      scheduled = [],
      trace = [Setup 0, Emit 0 ''start'' []] @ entries_trace 0 (before @ [e]) @
              [Emit 0 ''finish'' [Obj \<lparr>passed = length before, failed = 1\<rparr>], Teardown 0,
               Settle 0 (Rejected \<lparr>passed = length before, failed = 1\<rparr>)],
      outcome = Rejected \<lparr>passed = length before, failed = 1\<rparr>\<rparr>"
proof -
  let ?f0 = "\<lparr>passed = 0, failed = 0, self = q, listeners = registered q, cursor = 0, awaiter = None\<rparr>"
  let ?k = "length before"
  let ?fk = "\<lparr>passed = ?k, failed = 0, self = q, listeners = registered q, cursor = ?k, awaiter = None\<rparr>"
  let ?t = "[Setup 0, Emit 0 ''start'' []] @ entries_trace 0 before"
  obtain name fn x where e: "e = (name, Fn fn)" and rej: "new_Promise fn = Rejected x"
    using assms(4) by (cases e rule: failing.cases) (auto split: promise.splits)
  have cnt: "?k + 4 + m = 2 + (?k + Suc (Suc m))" by simp
  have seg: "steps ?k
           (testQueueNext \<lparr>stack = [?f0], scheduled = [], trace = [Setup 0, Emit 0 ''start'' []], outcome = Pending\<rparr>) =
         testQueueNext
           \<lparr>stack = [?f0\<lparr>passed := passed ?f0 + length (filter passing before),
                           failed := failed ?f0 + length (filter failing before),
                           cursor := cursor ?f0 + ?k\<rparr>],
            scheduled = [], trace = [Setup 0, Emit 0 ''start'' []] @ entries_trace (cursor ?f0) before, outcome = Pending\<rparr>"
    by (rule run_segment[where before = "[]" and rest = "e # rest"]) (use assms in simp_all)
  have seg': "steps ?k
           (testQueueNext \<lparr>stack = [?f0], scheduled = [], trace = [Setup 0, Emit 0 ''start'' []], outcome = Pending\<rparr>) =
         testQueueNext \<lparr>stack = [?fk], scheduled = [], trace = ?t, outcome = Pending\<rparr>"
    unfolding seg using filter_all_passing[OF assms(3)] by simp
  have disp: "testQueueNext \<lparr>stack = [?fk], scheduled = [], trace = ?t, outcome = Pending\<rparr> =
      \<lparr>stack = [?fk\<lparr>cursor := ?k + 1\<rparr>], scheduled = [OnError name x],
       trace = ?t @ [Dispatch 0 ?k] @ info_events (acts fn), outcome = Pending\<rparr>"
    using testQueueNext_leaf[of "\<lparr>stack = [?fk], scheduled = [], trace = ?t, outcome = Pending\<rparr>" ?fk "[]" name fn]
      assms(2) e rej
    by (simp add: infos_single promise_then_def)
  have err: "step \<lparr>stack = [?fk\<lparr>cursor := ?k + 1\<rparr>], scheduled = [OnError name x],
       trace = ?t @ [Dispatch 0 ?k] @ info_events (acts fn), outcome = Pending\<rparr> =
      \<lparr>stack = [?fk\<lparr>cursor := ?k + 1, failed := 1\<rparr>],
       scheduled = [TeardownThen \<lparr>passed = ?k, failed = 1\<rparr>],
       trace = ?t @ [Dispatch 0 ?k] @ info_events (acts fn) @ [Emit 0 ''fail'' [name, x]]
               @ [Emit 0 ''finish'' [Obj \<lparr>passed = ?k, failed = 1\<rparr>], Teardown 0],
       outcome = Pending\<rparr>"
    using assms(1,6)
    by (simp add: step_def onError_frame[of _ "?fk\<lparr>cursor := ?k + 1\<rparr>" "[]"]
        onFinish_frame[of _ "?fk\<lparr>cursor := ?k + 1, failed := 1\<rparr>" "[]"]
        emit_single hook_then_completes Let_def)
  have fin: "steps (Suc m) \<lparr>stack = [?fk\<lparr>cursor := ?k + 1, failed := 1\<rparr>],
       scheduled = [TeardownThen \<lparr>passed = ?k, failed = 1\<rparr>],
       trace = ?t @ [Dispatch 0 ?k] @ info_events (acts fn) @ [Emit 0 ''fail'' [name, x]]
               @ [Emit 0 ''finish'' [Obj \<lparr>passed = ?k, failed = 1\<rparr>], Teardown 0],
       outcome = Pending\<rparr> =
     \<lparr>stack = [?fk\<lparr>cursor := ?k + 1, failed := 1\<rparr>], scheduled = [],
       trace = ?t @ [Dispatch 0 ?k] @ info_events (acts fn) @ [Emit 0 ''fail'' [name, x]]
               @ [Emit 0 ''finish'' [Obj \<lparr>passed = ?k, failed = 1\<rparr>], Teardown 0,
                  Settle 0 (Rejected \<lparr>passed = ?k, failed = 1\<rparr>)],
       outcome = Rejected \<lparr>passed = ?k, failed = 1\<rparr>\<rparr>"
    by (simp add: step_def settle_def Let_def steps_idle)
  show ?thesis
    unfolding cnt steps_add launch_started[OF assms(5)] seg' disp
    by (subst steps.simps(2), unfold err fin) (use e rej in \<open>simp add: entries_trace_append promise_then_def\<close>)
qed


subsection \<open>The effect of a step\<close>

lemma proceeds_onFinish:
  "\<exists>st' cbs tr. proceeds (stack s) st' cbs tr \<and>
     onFinish s = s\<lparr>stack := st', scheduled := scheduled s @ cbs, trace := trace s @ tr\<rparr>"
proof (cases "stack s")
  case Nil
  then have "onFinish s = s\<lparr>stack := [], scheduled := scheduled s @ [], trace := trace s @ []\<rparr>"
    by (simp add: onFinish_def)
  with Nil show ?thesis using rests[of "[]"] by metis
next
  case (Cons this parents)
  have "onFinish s = s\<lparr>stack := this # parents,
      scheduled := scheduled s @ hook_then (teardownFn (self this)) (TeardownThen \<lparr>passed = passed this, failed = failed this\<rparr>),
      trace := trace s @ (emit (this # parents) ''finish'' [Obj \<lparr>passed = passed this, failed = failed this\<rparr>]
          @ [Teardown (length parents)])\<rparr>"
    using onFinish_frame[OF Cons] Cons by simp
  with Cons show ?thesis using finishes[of this parents] by metis
qed

lemma proceeds_testQueueNext:
  "\<exists>st' cbs tr. proceeds (stack s) st' cbs tr \<and>
     testQueueNext s = s\<lparr>stack := st', scheduled := scheduled s @ cbs, trace := trace s @ tr\<rparr>"
proof (cases "stack s")
  case Nil
  then have "testQueueNext s = s\<lparr>stack := [], scheduled := scheduled s @ [], trace := trace s @ []\<rparr>"
    by (simp add: testQueueNext_def)
  with Nil show ?thesis using rests[of "[]"] by metis
next
  case (Cons this parents)
  consider (fin) "cursor this = length (tests (self this))"
    | (past) "length (tests (self this)) < cursor this"
    | (test) name fn where "cursor this < length (tests (self this))"
        "tests (self this) ! cursor this = (name, Fn fn)"
    | (queue) name q where "cursor this < length (tests (self this))"
        "tests (self this) ! cursor this = (name, Queue q)"
    by (metis surj_pair runnable.exhaust nat_neq_iff)
  then show ?thesis
  proof cases
    case fin
    then show ?thesis using proceeds_onFinish[of s] testQueueNext_end[OF Cons] by simp
  next
    case past
    then have "testQueueNext s = s\<lparr>stack := stack s, scheduled := scheduled s @ [], trace := trace s @ []\<rparr>"
      using Cons by (simp add: testQueueNext_def)
    then show ?thesis using rests[of "stack s"] by metis
  next
    case test
    have "testQueueNext s = s\<lparr>stack := this\<lparr>cursor := cursor this + 1\<rparr> # parents,
       scheduled := scheduled s @ promise_then (new_Promise fn) (OnPass name) (OnError name),
       trace := trace s @ (Dispatch (length parents) (cursor this) # infos (this # parents) (acts fn))\<rparr>"
      using testQueueNext_leaf[OF Cons test] by simp
    then show ?thesis using calls_test[OF test, of parents] Cons by metis
  next
    case queue
    show ?thesis
    proof (cases "\<exists>e. setupFn q = Throws e")
      case True
      then obtain e where e: "setupFn q = Throws e" ..
      have "testQueueNext s = s\<lparr>stack := \<lparr>passed = 0, failed = 0, self = q, listeners = registered q @ relays name,
           cursor = 0, awaiter = None\<rparr> # this # parents,
         scheduled := scheduled s @ [],
         trace := trace s @ [Dispatch (length parents) (cursor this), Setup (Suc (length parents))]\<rparr>"
        using testQueueNext_queue[OF Cons queue] e by simp
      then show ?thesis using run_throws[OF queue e, of parents] Cons by metis
    next
      case False
      then have ne: "\<forall>e. setupFn q \<noteq> Throws e" by simp
      have "testQueueNext s = s\<lparr>stack := \<lparr>passed = 0, failed = 0, self = q, listeners = registered q @ relays name,
           cursor = 0, awaiter = Some name\<rparr> # this\<lparr>cursor := cursor this + 1\<rparr> # parents,
         scheduled := scheduled s @ hook_then (setupFn q) StartThen,
         trace := trace s @ [Dispatch (length parents) (cursor this), Setup (Suc (length parents))]\<rparr>"
        using testQueueNext_queue[OF Cons queue] ne by (cases "setupFn q") simp_all
      then show ?thesis using runs_queue[OF queue ne, of parents] Cons by metis
    qed
  qed
qed

lemma call_handles:
  assumes "stack s = this # parents" "c \<noteq> StartThen" "\<not> settling c"
  shows "call c s = testQueueNext (s\<lparr>stack := account c this # parents,
                                       trace := trace s @ announces c (this # parents)\<rparr>)
       \<or> call c s = onFinish (s\<lparr>stack := account c this # parents,
                                  trace := trace s @ announces c (this # parents)\<rparr>)"
  using assms
  by (cases s; cases c)
     (auto simp: onPass_frame onError_frame onPassQueue_def onErrorQueue_def Let_def)

lemma call_effect:
  "\<exists>st' cbs tr. effect c (stack s) st' cbs tr \<and> stack (call c s) = st' \<and>
     scheduled (call c s) = scheduled s @ cbs \<and> trace (call c s) = trace s @ tr"
proof (cases "c = StartThen")
  case True
  then show ?thesis using starts[of "stack s"] by auto
next
  case notstart: False
  show ?thesis
  proof (cases "stack s")
    case Nil
    with notstart have "call c s = s"
      by (cases c) (simp_all add: testQueueNext_def onPass_def onError_def onPassQueue_def
          onErrorQueue_def settle_def)
    with Nil show ?thesis using no_queue[of c] by auto
  next
    case (Cons this parents)
    show ?thesis
    proof (cases "settling c")
      case True
      then obtain res where c: "c = TeardownThen res" by (cases c) auto
      show ?thesis
      proof (cases parents)
        case Nil
        then show ?thesis using Cons c settles_outermost[of res this]
          by (auto simp: settle_def Let_def)
      next
        case (Cons parent ps)
        then show ?thesis using \<open>stack s = this # parents\<close> c settles_nested[of res this parent ps]
          by (auto simp: settle_def Let_def split: option.splits)
      qed
    next
      case False
      let ?s1 = "s\<lparr>stack := account c this # parents,
                   trace := trace s @ announces c (this # parents)\<rparr>"
      have fin: "effect c (this # parents) st' cbs (announces c (this # parents) @ tr) \<and>
           stack (call c s) = st' \<and> scheduled (call c s) = scheduled s @ cbs \<and>
           trace (call c s) = trace s @ announces c (this # parents) @ tr"
        if p: "proceeds (stack ?s1) st' cbs tr"
          and eq: "call c s = ?s1\<lparr>stack := st', scheduled := scheduled ?s1 @ cbs, trace := trace ?s1 @ tr\<rparr>"
        for st' cbs tr
      proof -
        from p have "proceeds (account c this # parents) st' cbs tr" by simp
        from handles[OF notstart False this] eq show ?thesis by simp
      qed
      from call_handles[OF Cons notstart False] show ?thesis
      proof
        assume a: "call c s = testQueueNext ?s1"
        from proceeds_testQueueNext[of ?s1] obtain st' cbs tr where
          "proceeds (stack ?s1) st' cbs tr"
          "testQueueNext ?s1 = ?s1\<lparr>stack := st', scheduled := scheduled ?s1 @ cbs, trace := trace ?s1 @ tr\<rparr>"
          by blast
        from fin[OF this(1)] this(2) a Cons show ?thesis by metis
      next
        assume a: "call c s = onFinish ?s1"
        from proceeds_onFinish[of ?s1] obtain st' cbs tr where
          "proceeds (stack ?s1) st' cbs tr"
          "onFinish ?s1 = ?s1\<lparr>stack := st', scheduled := scheduled ?s1 @ cbs, trace := trace ?s1 @ tr\<rparr>"
          by blast
        from fin[OF this(1)] this(2) a Cons show ?thesis by metis
      qed
    qed
  qed
qed

lemma call_outcome:
  "outcome (call c s) =
     (case c of
        TeardownThen res \<Rightarrow>
          (case stack s of
             [this] \<Rightarrow> if failed this > 0 then Rejected res else Fulfilled res
           | _ \<Rightarrow> outcome s)
      | _ \<Rightarrow> outcome s)"
proof (cases "settling c")
  case True
  then obtain res where c: "c = TeardownThen res" by (cases c) auto
  show ?thesis unfolding c
    by (auto simp: settle_def Let_def split: list.splits option.splits)
next
  case False
  have tq: "outcome (testQueueNext s') = outcome s'" for s'
    using proceeds_testQueueNext[of s'] by (elim exE conjE) simp
  have fi: "outcome (onFinish s') = outcome s'" for s'
    using proceeds_onFinish[of s'] by (elim exE conjE) simp
  show ?thesis
  proof (cases "stack s")
    case Nil
    with False show ?thesis
      by (cases c) (simp_all add: testQueueNext_def onPass_def onError_def onPassQueue_def
          onErrorQueue_def)
  next
    case (Cons this parents)
    show ?thesis
    proof (cases "c = StartThen")
      case True
      then show ?thesis by simp
    next
      case ns: False
      from call_handles[OF Cons ns False] tq fi have "outcome (call c s) = outcome s" by auto
      with False show ?thesis by (cases c) simp_all
    qed
  qed
qed

lemma step_effect:
  assumes "scheduled s = c # cs"
  shows "\<exists>st' cbs tr. effect c (stack s) st' cbs tr \<and> stack (step s) = st' \<and>
     scheduled (step s) = cs @ cbs \<and> trace (step s) = trace s @ tr"
  using call_effect[of c "s\<lparr>scheduled := cs\<rparr>"] assms by (simp add: step_def)


subsection \<open>The trace grows\<close>

lemma steps_trace: "\<exists>tr. trace (steps n s) = trace s @ tr"
proof (induction n arbitrary: s)
  case 0
  show ?case by simp
next
  case (Suc n)
  have "\<exists>tr. trace (step s) = trace s @ tr"
  proof (cases "scheduled s")
    case Nil
    then show ?thesis by (simp add: step_idle)
  next
    case (Cons c cs)
    from step_effect[OF this] show ?thesis by blast
  qed
  then obtain tr where "trace (step s) = trace s @ tr" ..
  moreover from Suc[of "step s"] obtain tr' where "trace (steps n (step s)) = trace (step s) @ tr'" ..
  ultimately show ?case by simp
qed

lemma trace_before_rest:
  assumes "\<And>m. steps (n + m) s = final"
  shows "set (trace (steps k s)) \<subseteq> set (trace final)"
proof (cases "k \<le> n")
  case True
  then have "steps n s = steps (n - k) (steps k s)"
    using steps_add[of k "n - k" s] by simp
  moreover from steps_trace[of "n - k" "steps k s"] obtain tr where
    "trace (steps (n - k) (steps k s)) = trace (steps k s) @ tr" ..
  ultimately show ?thesis using assms[of 0] by auto
next
  case False
  then have "steps k s = final" using assms[of "k - n"] by simp
  then show ?thesis by simp
qed

lemma Dispatch_entries_trace:
  "Dispatch d j \<in> set (entries_trace i es) \<Longrightarrow> d = 0 \<and> i \<le> j \<and> j < i + length es"
proof (induction es arbitrary: i)
  case Nil
  then show ?case by simp
next
  case (Cons e es)
  have info: "Dispatch d j \<notin> set (info_events as)" for as
    by (induction as rule: info_events.induct) simp_all
  from Cons.prems consider "Dispatch d j \<in> set (entry_trace i e)"
    | "Dispatch d j \<in> set (entries_trace (Suc i) es)" by auto
  then show ?case
  proof cases
    case 1
    obtain name r where e: "e = (name, r)" by (cases e)
    from 1 info show ?thesis unfolding e
      by (cases r) (auto simp: promise_then_def split: promise.splits)
  next
    case 2
    from Cons.IH[OF this] show ?thesis by simp
  qed
qed


lemma Dispatches_entries_trace:
  "\<forall>e\<in>set es. passing e \<or> failing e \<Longrightarrow>
   filter is_Dispatch (entries_trace i es) = map (Dispatch 0) [i..<i + length es]"
proof (induction es arbitrary: i)
  case Nil
  show ?case by simp
next
  case (Cons e es)
  have info: "filter is_Dispatch (info_events as) = []" for as
    by (induction as rule: info_events.induct) simp_all
  obtain name r where e: "e = (name, r)" by (cases e)
  from Cons.prems e obtain fn where r: "r = Fn fn" by (cases r) auto
  have "filter is_Dispatch (entry_trace i e) = [Dispatch 0 i]"
    unfolding e r by (simp add: info promise_then_def split: promise.splits)
  moreover have "filter is_Dispatch (entries_trace (Suc i) es) = map (Dispatch 0) [Suc i..<Suc i + length es]"
    using Cons by simp
  moreover have "[i..<i + length (e # es)] = i # [Suc i..<Suc i + length es]"
    by (simp add: upt_rec)
  ultimately show ?case by (simp only: entries_trace.simps filter_append list.map append.simps)
qed


subsection \<open>The phases of a run are passed in order\<close>

lemma steps_invariant:
  assumes "I s" and "\<And>s. I s \<Longrightarrow> I (step s)"
  shows "I (steps n s)"
  using assms(1) by (induction n arbitrary: s) (simp_all add: assms(2))

lemma account_same [simp]:
  "self (account c this) = self this" "listeners (account c this) = listeners this"
  "cursor (account c this) = cursor this" "awaiter (account c this) = awaiter this"
  by (cases c; simp)+

lemma then_length [simp]:
  "length (promise_then p f g) \<le> Suc 0" "length (hook_then h x) \<le> Suc 0"
  by (simp_all add: promise_then_def hook_then_def split: promise.split hook.split)

lemma hook_then_mem: "y \<in> set (hook_then h x) \<Longrightarrow> y = x \<and> completes h"
  by (auto simp: hook_then_def completes_def split: hook.splits)

lemma promise_then_mem: "y \<in> set (promise_then p f g) \<Longrightarrow> (\<exists>v. y = f v) \<or> (\<exists>v. y = g v)"
  by (auto simp: promise_then_def split: promise.splits)

lemma emit_not_final: "a \<in> set (emit st ev args) \<Longrightarrow> \<not> final_action a"
  by (auto dest: emit_depth)

lemma infos_not_final: "a \<in> set (infos st as) \<Longrightarrow> \<not> final_action a"
  by (auto dest: infos_depth)

lemma announces_not_final: "a \<in> set (announces c st) \<Longrightarrow> \<not> final_action a"
  by (cases c) (auto dest: emit_not_final)

lemma launch_state:
  "launch q =
     \<lparr>stack = [\<lparr>passed = 0, failed = 0, self = q, listeners = registered q, cursor = 0, awaiter = None\<rparr>],
      scheduled = hook_then (setupFn q) StartThen, trace = [Setup 0], outcome = Pending\<rparr>"
  by (cases "setupFn q") (simp_all add: launch_def run_def initial_def Let_def hook_then_def)

lemma run_of_launch: "run_of q (launch q)"
  by (auto simp: run_of_def running_def launch_state dest: hook_then_mem)

lemma run_of_step:
  assumes "run_of q s"
  shows "run_of q (step s)"
proof (cases "scheduled s")
  case Nil
  then show ?thesis using assms by (simp add: step_idle)
next
  case (Cons c cs)
  with assms have cs: "cs = []" by (simp add: run_of_def)
  from assms have ne: "stack s \<noteq> []" and bot: "self (last (stack s)) = q"
    by (auto simp: run_of_def)
  from step_effect[OF Cons] obtain st' cbs tr where
    eff: "effect c (stack s) st' cbs tr" and st: "stack (step s) = st'"
    and sch: "scheduled (step s) = cbs" and tr: "trace (step s) = trace s @ tr"
    using cs by auto
  have out: "outcome (step s) = (case c of
        TeardownThen res \<Rightarrow>
          (case stack s of
             [this] \<Rightarrow> if failed this > 0 then Rejected res else Fulfilled res
           | _ \<Rightarrow> outcome s)
      | _ \<Rightarrow> outcome s)"
    using call_outcome[of c "s\<lparr>scheduled := cs\<rparr>"] Cons
    by (simp add: step_def split: callback.splits list.splits)
  from assms consider (run) "running s" | (fin) "finishing s" | (over) "settled s"
    by (auto simp: run_of_def)
  then show ?thesis
  proof cases
    case over
    with Cons show ?thesis by (simp add: settled_def)
  next
    case fin
    then obtain this pre where f:
      "stack s = [this]"
      "trace s = pre @ [Emit 0 ''finish'' [Obj \<lparr>passed = passed this, failed = failed this\<rparr>], Teardown 0]"
      "\<forall>a\<in>set pre. \<not> final_action a" "outcome s = Pending"
      "scheduled s = hook_then (teardownFn (self this))
                        (TeardownThen \<lparr>passed = passed this, failed = failed this\<rparr>)"
      by (auto simp: finishing_def)
    from f(5) Cons have c: "c = TeardownThen \<lparr>passed = passed this, failed = failed this\<rparr>"
      and comp: "completes (teardownFn (self this))"
      using hook_then_mem[of c] by (metis list.set_intros(1))+
    from eff f(1) c have e: "st' = [this]" "cbs = []"
      "tr = [Settle 0 (if failed this > 0 then Rejected \<lparr>passed = passed this, failed = failed this\<rparr>
                       else Fulfilled \<lparr>passed = passed this, failed = failed this\<rparr>)]"
      by (auto elim: effect.cases)
    have "settled (step s)"
      unfolding settled_def using st sch tr e f out c comp by auto
    then show ?thesis using st e sch bot f(1) by (simp add: run_of_def)
  next
    case run
    then have pend: "outcome s = Pending" and nofin: "\<forall>a\<in>set (trace s). \<not> final_action a"
      and td: "\<And>r. c = TeardownThen r \<Longrightarrow> 2 \<le> length (stack s)"
      using Cons by (auto simp: running_def)
    have out': "outcome (step s) = Pending"
      using out pend td by (auto split: callback.splits list.splits)
    from eff show ?thesis
    proof (cases rule: effect.cases)
      case starts
      then have "running (step s)"
        using out' nofin st sch tr by (auto simp: running_def dest: emit_not_final)
      then show ?thesis using starts st sch ne bot by (simp add: run_of_def)
    next
      case (settles_outermost res this)
      with td show ?thesis by simp
    next
      case (settles_nested res this parent ps)
      then have "running (step s)"
        using out' nofin st sch tr
        by (auto simp: running_def split: option.splits dest: promise_then_mem)
      then show ?thesis using settles_nested st sch bot
        by (auto simp: run_of_def split: option.splits)
    next
      case no_queue
      with ne show ?thesis by simp
    next
      case (handles this parents tr0)
      note ann = announces_not_final[of _ c "this # parents"]
      from handles(5) show ?thesis
      proof (cases rule: proceeds.cases)
        case finishes
        show ?thesis
        proof (cases parents)
          case Nil
          have "finishing (step s)"
            unfolding finishing_def
            apply (rule exI[of _ "account c this"], rule exI[of _ "trace s @ announces c [this]"])
            using finishes Nil handles(1,2) st sch tr out' nofin ann
            by (auto simp: emit_single)
          then show ?thesis using finishes Nil st sch bot handles(1) by (simp add: run_of_def)
        next
          case (Cons p ps)
          have "running (step s)"
            unfolding running_def
            using finishes Cons handles(1,2) st sch tr out' nofin ann
            by (auto dest: emit_not_final hook_then_mem)
          then show ?thesis using finishes Cons st sch bot handles(1) by (simp add: run_of_def)
        qed
      next
        case rests
        then have "running (step s)"
          unfolding running_def using handles(1,2) st sch tr out' nofin ann by auto
        then show ?thesis using rests st sch bot handles(1) by (cases parents) (simp_all add: run_of_def)
      next
        case calls_test
        then have "running (step s)"
          unfolding running_def using handles(1,2) st sch tr out' nofin ann
          by (auto dest: infos_not_final promise_then_mem)
        then show ?thesis using calls_test st sch bot handles(1)
          by (cases parents) (simp_all add: run_of_def)
      next
        case runs_queue
        then have "running (step s)"
          unfolding running_def using handles(1,2) st sch tr out' nofin ann
          by (auto dest: hook_then_mem)
        then show ?thesis using runs_queue st sch bot handles(1)
          by (cases parents) (simp_all add: run_of_def)
      next
        case run_throws
        then have "running (step s)"
          unfolding running_def using handles(1,2) st sch tr out' nofin ann by auto
        then show ?thesis using run_throws st sch bot handles(1)
          by (cases parents) (simp_all add: run_of_def)
      qed
    qed
  qed
qed

lemma run_of_steps: "run_of q (steps n (launch q))"
  by (rule steps_invariant[where I = "run_of q"]) (auto intro: run_of_launch run_of_step)


lemma phase_outcome:
  "running s \<Longrightarrow> outcome s = Pending" "finishing s \<Longrightarrow> outcome s = Pending"
  "settled s \<Longrightarrow> outcome s \<noteq> Pending"
  by (auto simp: running_def finishing_def settled_def split: if_splits)

lemma running_step_pending:
  assumes "running s"
  shows "outcome (step s) = Pending"
proof (cases "scheduled s")
  case Nil
  then show ?thesis using assms by (simp add: step_idle running_def)
next
  case (Cons c cs)
  with assms have "\<And>r. c = TeardownThen r \<Longrightarrow> 2 \<le> length (stack s)" and "outcome s = Pending"
    by (auto simp: running_def)
  then show ?thesis
    using call_outcome[of c "s\<lparr>scheduled := cs\<rparr>"] Cons
    by (auto simp: step_def split: callback.splits list.splits)
qed

lemma pending_step:
  assumes "\<not> completes (teardownFn q)" "run_of q s" "outcome s = Pending"
  shows "outcome (step s) = Pending"
proof -
  from assms(2,3) consider "running s" | "finishing s"
    by (auto simp: run_of_def dest: phase_outcome)
  then show ?thesis
  proof cases
    case 1
    then show ?thesis by (rule running_step_pending)
  next
    case 2
    then obtain this where "stack s = [this]"
      "scheduled s = hook_then (teardownFn (self this))
                        (TeardownThen \<lparr>passed = passed this, failed = failed this\<rparr>)"
      by (auto simp: finishing_def)
    moreover from this(1) assms(2) have "self this = q" by (simp add: run_of_def)
    ultimately have "scheduled s = []" using assms(1) by (auto simp: hook_then_def completes_def split: hook.splits)
    then show ?thesis using assms(3) by (simp add: step_idle)
  qed
qed

lemma pending_steps:
  assumes "\<not> completes (teardownFn q)"
  shows "run_of q (steps n (launch q)) \<and> outcome (steps n (launch q)) = Pending"
proof (rule steps_invariant[where I = "\<lambda>s. run_of q s \<and> outcome s = Pending"])
  show "run_of q (launch q) \<and> outcome (launch q) = Pending"
    using run_of_launch[of q] by (simp add: launch_state)
next
  fix s assume "run_of q s \<and> outcome s = Pending"
  then show "run_of q (step s) \<and> outcome (step s) = Pending"
    using run_of_step pending_step[OF assms] by blast
qed


subsection \<open>A promise is settled by the callback of the teardown function\<close>

lemma Settle_emit [simp]: "Settle d p \<notin> set (emit st ev args)"
  by (auto dest: emit_depth)

lemma Settle_infos [simp]: "Settle d p \<notin> set (infos st as)"
  by (auto dest: infos_depth)

lemma Settle_announces [simp]: "Settle d p \<notin> set (announces c st)"
  by (cases c) simp_all

lemma proceeds_no_Settle: "proceeds st st' cbs tr \<Longrightarrow> Settle d p \<notin> set tr"
  by (cases rule: proceeds.cases) auto

lemma proceeds_winding:
  assumes "proceeds st st' cbs tr" "TeardownThen r \<in> set cbs"
  shows "\<exists>this parents. st' = this # parents \<and> r = results_of this \<and>
           completes (teardownFn (self this)) \<and>
           tr = emit st' ''finish'' [Obj r] @ [Teardown (length parents)]"
  using assms
  by (cases rule: proceeds.cases)
     (auto simp: results_of_def dest!: hook_then_mem promise_then_mem)

lemma winding_up_launch: "winding_up (launch q)"
  by (auto simp: winding_up_def launch_state dest!: hook_then_mem)

lemma winding_up_step:
  assumes "length (scheduled s) \<le> 1" "winding_up s"
  shows "winding_up (step s)"
proof (cases "scheduled s")
  case Nil
  then show ?thesis using assms(2) by (simp add: step_idle)
next
  case (Cons c cs)
  with assms(1) have cs: "cs = []" by simp
  from step_effect[OF Cons] obtain st' cbs tr where
    eff: "effect c (stack s) st' cbs tr" and st: "stack (step s) = st'"
    and sch: "scheduled (step s) = cbs" and tr: "trace (step s) = trace s @ tr"
    using cs by auto
  have "\<exists>this parents pre. st' = this # parents \<and> r = results_of this \<and>
           completes (teardownFn (self this)) \<and>
           trace s @ tr = pre @ emit st' ''finish'' [Obj r] @ [Teardown (length parents)]"
    if "TeardownThen r \<in> set cbs" for r
    using eff that
  proof (cases rule: effect.cases)
    case (handles this parents tr0)
    from proceeds_winding[OF handles(5) that] obtain this' parents' where
      w: "st' = this' # parents'" "r = results_of this'" "completes (teardownFn (self this'))"
        "tr0 = emit st' ''finish'' [Obj r] @ [Teardown (length parents')]" by blast
    have "trace s @ tr = (trace s @ announces c (this # parents)) @
        emit st' ''finish'' [Obj r] @ [Teardown (length parents')]"
      using handles(2) w(4) by simp
    with w(1,2,3) show ?thesis by blast
  qed (auto split: option.splits dest!: promise_then_mem)
  then show ?thesis unfolding winding_up_def st sch tr by blast
qed


lemma settle_step:
  assumes "length (scheduled s) \<le> 1" "winding_up s"
    and "Settle d p \<in> set (drop (length (trace s)) (trace (step s)))"
  shows "d = length (stack s) - 1 \<and> completes (teardownFn (self (hd (stack s)))) \<and>
         scheduled s = [TeardownThen (results_of (hd (stack s)))] \<and>
         p = settlement (hd (stack s)) \<and>
         (\<exists>pre. trace s =
            pre @ emit (stack s) ''finish'' [Obj (results_of (hd (stack s)))] @ [Teardown d]) \<and>
         trace (step s) = trace s @ [Settle d p]"
proof (cases "scheduled s")
  case Nil
  then show ?thesis using assms(3) by (simp add: step_idle)
next
  case (Cons c cs)
  with assms(1) have cs: "cs = []" by simp
  from step_effect[OF Cons] obtain st' cbs tr where
    eff: "effect c (stack s) st' cbs tr" and tr: "trace (step s) = trace s @ tr" by blast
  from assms(3) tr have d: "Settle d p \<in> set tr" by simp
  have w: "\<exists>this parents pre. stack s = this # parents \<and> r = results_of this \<and>
           completes (teardownFn (self this)) \<and>
           trace s = pre @ emit (stack s) ''finish'' [Obj r] @ [Teardown (length parents)]"
    if "c = TeardownThen r" for r
    using assms(2) Cons that unfolding winding_up_def by simp
  from eff d show ?thesis
  proof (cases rule: effect.cases)
    case starts
    with d show ?thesis by simp
  next
    case no_queue
    with d show ?thesis by simp
  next
    case (handles this parents tr0)
    with d proceeds_no_Settle[OF handles(5)] show ?thesis by simp
  next
    case (settles_outermost res this)
    from w[OF settles_outermost(1)] settles_outermost(2) obtain pre where
      "res = results_of this" "completes (teardownFn (self this))"
      "trace s = pre @ emit [this] ''finish'' [Obj res] @ [Teardown 0]" by auto
    then show ?thesis using settles_outermost d tr Cons cs
      by (auto simp: settlement_def)
  next
    case (settles_nested res this parent ps)
    from w[OF settles_nested(1)] settles_nested(2) obtain pre where
      "res = results_of this" "completes (teardownFn (self this))"
      "trace s = pre @ emit (this # parent # ps) ''finish'' [Obj res] @ [Teardown (Suc (length ps))]"
      by auto
    then show ?thesis using settles_nested d tr Cons cs
      by (auto simp: settlement_def)
  qed
qed


subsection \<open>Failures stay counted\<close>

lemma throw_rejects:
  "first_call (acts fn) = Pending \<Longrightarrow> ending fn = Throw e \<Longrightarrow> new_Promise fn = Rejected e"
  by (simp add: new_Promise_def)

lemma no_throw_pending:
  "first_call (acts fn) = Pending \<Longrightarrow> \<forall>e. ending fn \<noteq> Throw e \<Longrightarrow> new_Promise fn = Pending"
  by (cases "ending fn") (simp_all add: new_Promise_def)

lemma account_carried: "failed this + carried c \<le> failed (account c this)"
  by (cases c) simp_all

lemma take_top: "d \<le> length ps \<Longrightarrow> take (Suc (length ps) - d) (a # ps) = a # take (length ps - d) ps"
  by (simp add: Suc_diff_le)

lemma first_settle_append:
  "first_settle d (xs @ ys) =
     (case first_settle d xs of None \<Rightarrow> first_settle d ys | Some p \<Rightarrow> Some p)"
  by (induction xs rule: first_settle.induct) simp_all

lemma first_settle_None: "first_settle d tr = None \<longleftrightarrow> (\<forall>p. Settle d p \<notin> set tr)"
  by (induction tr rule: first_settle.induct) auto

lemma effect_one:
  assumes "effect c st st' cbs tr"
  shows "length cbs \<le> 1"
  using assms
proof (cases rule: effect.cases)
  case (handles this parents tr0)
  from handles(5) show ?thesis by (cases rule: proceeds.cases) simp_all
qed (simp_all split: option.splits)

text \<open>What \<^verbatim>\<open>_testQueueNext\<close> and \<^verbatim>\<open>_onFinish\<close> leave of the counters and the awaiters.\<close>

lemma proceeds_tally:
  assumes "proceeds (this # parents) st' cbs tr" "d \<le> length parents"
  shows "d < length st' \<and>
         sum_list (map failed (take (length st' - d) st')) =
           failed this + sum_list (map failed (take (length parents - d) parents)) \<and>
         sum_list (map carried cbs) = 0"
  using assms
proof (cases rule: proceeds.cases)
  case finishes
  then show ?thesis using assms(2) by (auto simp: take_top hook_then_def split: hook.splits)
next
  case rests
  then show ?thesis using assms(2) by (simp add: take_top)
next
  case (calls_test name fn)
  then show ?thesis using assms(2)
    by (auto simp: take_top promise_then_def split: promise.splits)
next
  case (runs_queue name q)
  have "take (Suc (Suc (length parents)) - d) (c # a # parents) =
        c # a # take (length parents - d) parents" for c a :: frame
    using assms(2) by (simp add: Suc_diff_le)
  then show ?thesis using runs_queue assms(2) by (auto simp: hook_then_def split: hook.splits)
next
  case (run_throws name q e)
  have "take (Suc (Suc (length parents)) - d) (c # a # parents) =
        c # a # take (length parents - d) parents" for c a :: frame
    using assms(2) by (simp add: Suc_diff_le)
  then show ?thesis using run_throws assms(2) by simp
qed

lemma proceeds_awaited:
  assumes "proceeds st st' cbs tr" "cbs \<noteq> []" "\<forall>f\<in>set (butlast st). awaiter f \<noteq> None"
  shows "\<forall>f\<in>set (butlast st'). awaiter f \<noteq> None"
  using assms by (cases rule: proceeds.cases) (auto split: if_splits)

lemma sound_launch: "sound (launch q)"
  unfolding sound_def using winding_up_launch[of q] by (simp add: awaited_def launch_state)

lemma sound_step:
  assumes "sound s"
  shows "sound (step s)"
proof (cases "scheduled s")
  case Nil
  then show ?thesis using assms by (simp add: step_idle)
next
  case (Cons c cs)
  from assms have one: "length (scheduled s) \<le> 1" and w: "winding_up s" and a: "awaited s"
    by (simp_all add: sound_def)
  from one Cons have cs: "cs = []" by simp
  from a Cons have aw: "\<forall>f\<in>set (butlast (stack s)). awaiter f \<noteq> None"
    by (simp add: awaited_def)
  from step_effect[OF Cons] obtain st' cbs tr where
    eff: "effect c (stack s) st' cbs tr" and st: "stack (step s) = st'"
    and sch: "scheduled (step s) = cbs" using cs by auto
  have "cbs \<noteq> [] \<longrightarrow> (\<forall>f\<in>set (butlast st'). awaiter f \<noteq> None)"
    using eff
  proof (cases rule: effect.cases)
    case starts
    with aw show ?thesis by simp
  next
    case (handles this parents tr0)
    have "\<forall>f\<in>set (butlast (account c this # parents)). awaiter f \<noteq> None"
      using aw handles(1) by (auto split: if_splits)
    with proceeds_awaited[OF handles(5)] show ?thesis by blast
  next
    case (settles_nested res this parent ps)
    with aw show ?thesis by (auto split: if_splits)
  qed simp_all
  then have "awaited (step s)" by (simp add: awaited_def st sch)
  with effect_one[OF eff] winding_up_step[OF one w] show ?thesis by (simp add: sound_def sch)
qed

lemma sound_steps: "sound s \<Longrightarrow> sound (steps n s)"
  by (rule steps_invariant[where I = sound]) (auto intro: sound_step)

text \<open>Every state of a run is sound.\<close>

lemma sound_run: "sound (steps n (launch q))"
  by (rule sound_steps) (rule sound_launch)

text \<open>A step that does not settle the promise at depth \<open>d\<close> does not lower the tally.\<close>

lemma tally_step:
  assumes "sound s" "d < length (stack s)"
    and "\<forall>p. Settle d p \<notin> set (drop (length (trace s)) (trace (step s)))"
  shows "d < length (stack (step s)) \<and> tally d s \<le> tally d (step s)"
proof (cases "scheduled s")
  case Nil
  then show ?thesis using assms(2) by (simp add: step_idle)
next
  case (Cons c cs)
  from assms(1) have one: "length (scheduled s) \<le> 1" and w: "winding_up s" and a: "awaited s"
    by (simp_all add: sound_def)
  from one Cons have cs: "cs = []" by simp
  from a Cons have aw: "\<forall>f\<in>set (butlast (stack s)). awaiter f \<noteq> None"
    by (simp add: awaited_def)
  from step_effect[OF Cons] obtain st' cbs tr where
    eff: "effect c (stack s) st' cbs tr" and st: "stack (step s) = st'"
    and sch: "scheduled (step s) = cbs" and tr: "trace (step s) = trace s @ tr"
    using cs by auto
  from assms(3) tr have nos: "\<And>p. Settle d p \<notin> set tr" by simp
  have old: "tally d s = sum_list (map failed (take (length (stack s) - d) (stack s))) + carried c"
    by (simp add: tally_def Cons cs)
  have "d < length st' \<and>
        sum_list (map failed (take (length (stack s) - d) (stack s))) + carried c
          \<le> sum_list (map failed (take (length st' - d) st')) + sum_list (map carried cbs)"
    using eff
  proof (cases rule: effect.cases)
    case starts
    with assms(2) show ?thesis by simp
  next
    case no_queue
    with assms(2) show ?thesis by simp
  next
    case (settles_outermost res this)
    with assms(2) nos[of "if failed this > 0 then Rejected res else Fulfilled res"]
    show ?thesis by simp
  next
    case (handles this parents tr0)
    from assms(2) handles(1) have d: "d \<le> length parents" by simp
    from proceeds_tally[OF handles(5) d] have
      "d < length st'"
      "sum_list (map failed (take (length st' - d) st')) =
         failed (account c this) + sum_list (map failed (take (length parents - d) parents))"
      "sum_list (map carried cbs) = 0" by simp_all
    moreover have "take (length (stack s) - d) (stack s) = this # take (length parents - d) parents"
      using handles(1) d by (simp add: take_top)
    ultimately show ?thesis using account_carried[of this c] by simp
  next
    case (settles_nested res this parent ps)
    from nos[of "if failed this > 0 then Rejected res else Fulfilled res"] settles_nested
    have "d \<noteq> Suc (length ps)" by auto
    with assms(2) settles_nested(2) have d: "d \<le> length ps" by simp
    from aw settles_nested(2) obtain name where name: "awaiter this = Some name" by auto
    from w Cons settles_nested(1,2) have res: "res = results_of this"
      by (auto simp: winding_up_def)
    have "failed this \<le> sum_list (map carried cbs)"
      using settles_nested(4) name res
      by (simp add: promise_then_def results_of_def)
    moreover have "take (length (stack s) - d) (stack s) =
        this # take (length (parent # ps) - d) (parent # ps)"
      using settles_nested(2) d by (simp add: Suc_diff_le)
    ultimately show ?thesis using settles_nested(1,3) d by simp
  qed
  then show ?thesis unfolding old by (simp add: tally_def st sch)
qed

text \<open>A step that settles the promise at depth \<open>d\<close> settles it with the tally.\<close>

lemma settle_tally:
  assumes "sound s" "Settle d p \<in> set (drop (length (trace s)) (trace (step s)))"
  shows "failures p = tally d s \<and> trace (step s) = trace s @ [Settle d p]"
proof -
  from assms(1) have one: "length (scheduled s) \<le> 1" and w: "winding_up s"
    by (simp_all add: sound_def)
  from settle_step[OF one w assms(2)] have
    d: "d = length (stack s) - 1" and sch: "scheduled s = [TeardownThen (results_of (hd (stack s)))]"
    and p: "p = settlement (hd (stack s))" and tr: "trace (step s) = trace s @ [Settle d p]"
    by simp_all
  from w sch have ne: "stack s \<noteq> []" by (auto simp: winding_up_def)
  then obtain this parents where st: "stack s = this # parents" by (cases "stack s") auto
  have "tally d s = failed this" unfolding tally_def st sch using d st by simp
  moreover have "failures p = failed this"
    using p st by (simp add: settlement_def results_of_def)
  ultimately show ?thesis using tr by simp
qed

lemma kept_step:
  assumes "sound s" "b \<le> length (trace s)" "kept k d (drop b (trace s)) s"
  shows "kept k d (drop b (trace (step s))) (step s)"
proof -
  obtain new where new: "trace (step s) = trace s @ new"
    using steps_trace[of 1 s] by auto
  then have dn: "drop (length (trace s)) (trace (step s)) = new" by simp
  from new assms(2) have split: "drop b (trace (step s)) = drop b (trace s) @ new" by simp
  show ?thesis
  proof (cases "first_settle d (drop b (trace s))")
    case (Some p)
    then show ?thesis using assms(3) unfolding split kept_def first_settle_append by simp
  next
    case None
    with assms(3) have run: "d < length (stack s)" "k \<le> tally d s" by (simp_all add: kept_def)
    show ?thesis
    proof (cases "first_settle d new")
      case None': None
      then have "\<forall>p. Settle d p \<notin> set (drop (length (trace s)) (trace (step s)))"
        unfolding dn by (simp add: first_settle_None)
      from tally_step[OF assms(1) run(1) this] run(2) None None'
      show ?thesis unfolding split kept_def first_settle_append by simp
    next
      case (Some p)
      then have "\<exists>p'. Settle d p' \<in> set new"
        using first_settle_None[of d new] by auto
      then obtain p' where p': "Settle d p' \<in> set new" ..
      with dn have "Settle d p' \<in> set (drop (length (trace s)) (trace (step s)))" by simp
      from settle_tally[OF assms(1) this] new have
        f: "failures p' = tally d s" and n: "new = [Settle d p']" by simp_all
      from Some n have "p = p'" by simp
      with f run(2) None Some show ?thesis unfolding split kept_def first_settle_append by simp
    qed
  qed
qed

lemma kept_steps:
  assumes "sound s" "b \<le> length (trace s)" "kept k d (drop b (trace s)) s"
  shows "kept k d (drop b (trace (steps n s))) (steps n s)"
proof -
  have "sound (steps n s) \<and> b \<le> length (trace (steps n s)) \<and>
        kept k d (drop b (trace (steps n s))) (steps n s)"
  proof (rule steps_invariant[where I = "\<lambda>t. sound t \<and> b \<le> length (trace t) \<and>
        kept k d (drop b (trace t)) t"])
    show "sound s \<and> b \<le> length (trace s) \<and> kept k d (drop b (trace s)) s"
      using assms by simp
  next
    fix t assume a: "sound t \<and> b \<le> length (trace t) \<and> kept k d (drop b (trace t)) t"
    obtain new where "trace (step t) = trace t @ new" using steps_trace[of 1 t] by auto
    with a have "b \<le> length (trace (step t))" by simp
    with a show "sound (step t) \<and> b \<le> length (trace (step t)) \<and>
        kept k d (drop b (trace (step t))) (step t)"
      using sound_step kept_step by blast
  qed
  then show ?thesis by simp
qed

lemma counted_step:
  assumes "sound s" "counted k s"
  shows "counted k (step s)"
proof (cases "scheduled s")
  case Nil
  then show ?thesis using assms(2) by (simp add: step_idle)
next
  case (Cons c cs)
  from assms(1) have one: "length (scheduled s) \<le> 1" and w: "winding_up s"
    by (simp_all add: sound_def)
  from one Cons have cs: "cs = []" by simp
  from assms(2) Cons have ne: "stack s \<noteq> []" and pend: "outcome s = Pending"
    and k: "k \<le> tally 0 s"
    by (auto simp: counted_def split: promise.splits)
  from step_effect[OF Cons] obtain st' cbs tr where
    eff: "effect c (stack s) st' cbs tr" and st: "stack (step s) = st'"
    and sch: "scheduled (step s) = cbs"
    and tr: "trace (step s) = trace s @ tr" using cs by auto
  show ?thesis
  proof (cases "\<exists>res this. c = TeardownThen res \<and> stack s = [this]")
    case True
    then obtain res this where c: "c = TeardownThen res" and s1: "stack s = [this]" by blast
    from w Cons c s1 have res: "res = results_of this" by (auto simp: winding_up_def)
    have out: "outcome (step s) = (if failed this > 0 then Rejected res else Fulfilled res)"
      using call_outcome[of c "s\<lparr>scheduled := cs\<rparr>"] Cons c s1 by (simp add: step_def)
    from eff c s1 have "cbs = []" "st' = [this]" by (auto elim: effect.cases)
    moreover have "tally 0 s = failed this" by (simp add: tally_def s1 Cons cs c)
    ultimately show ?thesis using out res k sch st
      by (simp add: counted_def results_of_def)
  next
    case False
    then have out: "outcome (step s) = Pending"
      using call_outcome[of c "s\<lparr>scheduled := cs\<rparr>"] Cons pend
      by (auto simp: step_def split: callback.splits list.splits)
    have "\<forall>p. Settle 0 p \<notin> set (drop (length (trace s)) (trace (step s)))"
    proof (intro allI notI)
      fix p assume "Settle 0 p \<in> set (drop (length (trace s)) (trace (step s)))"
      from settle_step[OF one w this] have "0 = length (stack s) - 1"
        "scheduled s = [TeardownThen (results_of (hd (stack s)))]" by simp_all
      with ne Cons have "\<exists>res this. c = TeardownThen res \<and> stack s = [this]"
        by (cases "stack s") auto
      with False show False ..
    qed
    from tally_step[OF assms(1) _ this] ne k
    have "stack (step s) \<noteq> []" "k \<le> tally 0 (step s)" by auto
    with out show ?thesis by (simp add: counted_def)
  qed
qed

lemma counted_steps:
  assumes "sound s" "counted k s"
  shows "counted k (steps n s)"
proof -
  have "sound (steps n s) \<and> counted k (steps n s)"
    by (rule steps_invariant[where I = "\<lambda>t. sound t \<and> counted k t"])
       (use assms sound_step counted_step in auto)
  then show ?thesis by simp
qed

text \<open>The events of a queue itself among what its emission does.\<close>

lemma emit_top:
  assumes "Emit (length ps) ev' a \<in> set (emit (c # ps) ev args)"
  shows "ev' = ev \<and> a = args"
proof -
  have "Emit (length ps) ev' a \<notin> set (handle ps args h)" for h
    by (cases h) (auto simp: handle_def dest: emit_depth)
  with assms show ?thesis by (auto simp: emit_handle)
qed

lemma infos_top:
  "Emit (length ps) ev a \<in> set (infos (c # ps) as) \<Longrightarrow> ev = ''info''"
proof (induction as)
  case Nil
  then show ?case by simp
next
  case (Cons x as)
  then show ?case by (cases x) (auto dest: emit_top)
qed


subsection \<open>The listeners of the running queues\<close>

lemma relayed_same:
  "self a = self b \<Longrightarrow> listeners a = listeners b \<Longrightarrow> awaiter a = awaiter b \<Longrightarrow>
   relayed (a # st) = relayed (b # st)"
proof (cases st)
  case Nil
  then show ?thesis by simp
next
  case (Cons p ps)
  assume "self a = self b" "listeners a = listeners b" "awaiter a = awaiter b"
  then show ?thesis unfolding Cons by (simp add: entry_of_def)
qed

lemma relayed_tl: "relayed (a # st) \<Longrightarrow> relayed st"
  by (cases st) simp_all

lemma relayed_append: "relayed (xs @ ys) \<Longrightarrow> relayed ys"
  by (induction xs) (auto dest: relayed_tl)

lemma relayed_push:
  assumes "relayed (this # parents)" "cursor this < length (tests (self this))"
    "tests (self this) ! cursor this = (name, Queue q)"
    "self child = q" "listeners child = registered q @ relays name" "self this' = self this"
    "listeners this' = listeners this" "awaiter this' = awaiter this"
    "entry_of child this' = cursor this"
    "awaiter child = (if hook_throws (setupFn q) then None else Some name)"
    "awaiter child = None \<or> 0 < cursor this'"
  shows "relayed (child # this' # parents)"
proof -
  have "relayed (this' # parents)"
    using assms(1,6,7,8) relayed_same[of this' this parents] by simp
  then show ?thesis using assms(2-7,9,10,11) by simp
qed

lemma proceeds_relayed:
  assumes "proceeds st st' cbs tr" "relayed st"
  shows "relayed st'"
  using assms
proof (cases rule: proceeds.cases)
  case (calls_test this name fn parents)
  then show ?thesis using assms(2) relayed_same[of "this\<lparr>cursor := cursor this + 1\<rparr>" this parents]
    by simp
next
  case (runs_queue this name q parents)
  show ?thesis unfolding runs_queue(2)
    by (rule relayed_push[of this parents name q])
       (use runs_queue assms(2) in \<open>auto simp: entry_of_def elim: hook_throws.elims\<close>)
next
  case (run_throws this name q e parents)
  show ?thesis unfolding run_throws(2)
    by (rule relayed_push[of this parents name q])
       (use run_throws assms(2) in \<open>simp_all add: entry_of_def\<close>)
qed simp_all

lemma relayed_step:
  assumes "relayed (stack s)"
  shows "relayed (stack (step s))"
proof (cases "scheduled s")
  case Nil
  then show ?thesis using assms by (simp add: step_idle)
next
  case (Cons c cs)
  from step_effect[OF Cons] obtain st' cbs tr where
    eff: "effect c (stack s) st' cbs tr" and st: "stack (step s) = st'" by blast
  from eff assms have "relayed st'"
  proof (cases rule: effect.cases)
    case (handles this parents tr0)
    have "relayed (account c this # parents)"
      using assms handles(1) relayed_same[of "account c this" this parents] by simp
    with handles(5) show ?thesis by (rule proceeds_relayed)
  next
    case (settles_nested res this parent ps)
    then show ?thesis using assms relayed_tl[of this "parent # ps"] by simp
  qed simp_all
  then show ?thesis using st by simp
qed

lemma relayed_steps: "relayed (stack (steps n (launch q)))"
  by (rule steps_invariant[where I = "\<lambda>s. relayed (stack s)"])
     (simp_all add: launch_state relayed_step)

text \<open>
  The second run of the queue that holds two passing tests in a nested queue:
  every event of the nested queue reaches the queue twice, and the results are
  those of the first run.
\<close>

lemma second_run:
  "trace (steps 9 (launch nested_passes_again)) =
     [Setup 0, Emit 0 ''start'' [], Dispatch 0 0, Setup 1, Emit 1 ''start'' [],
      Emit 0 ''start'' [Str ''sub''], Emit 0 ''start'' [Str ''sub''],
      Dispatch 1 0, Emit 1 ''pass'' [Str ''x'', Undefined],
      Emit 0 ''pass'' [Str ''x'', Undefined], Emit 0 ''pass'' [Str ''x'', Undefined],
      Dispatch 1 1, Emit 1 ''pass'' [Str ''y'', Undefined],
      Emit 0 ''pass'' [Str ''y'', Undefined], Emit 0 ''pass'' [Str ''y'', Undefined],
      Emit 1 ''finish'' [Obj \<lparr>passed = 2, failed = 0\<rparr>],
      Emit 0 ''finish'' [Obj \<lparr>passed = 2, failed = 0\<rparr>, Str ''sub''],
      Emit 0 ''finish'' [Obj \<lparr>passed = 2, failed = 0\<rparr>, Str ''sub''],
      Teardown 1, Settle 1 (Fulfilled \<lparr>passed = 2, failed = 0\<rparr>),
      Emit 0 ''finish'' [Obj \<lparr>passed = 2, failed = 0\<rparr>], Teardown 0,
      Settle 0 (Fulfilled \<lparr>passed = 2, failed = 0\<rparr>)]"
  by code_simp



subsection \<open>Entries are dispatched in order\<close>

lemma dispatched_append [simp]: "dispatched (xs @ ys) = dispatched xs @ dispatched ys"
  by (induction xs rule: dispatched.induct) simp_all

lemma dispatched_Emits:
  "\<forall>a\<in>set tr. \<exists>d ev args. a = Emit d ev args \<Longrightarrow> dispatched tr = []"
  by (induction tr rule: dispatched.induct) auto

lemma dispatched_emit [simp]: "dispatched (emit st ev args) = []"
  by (rule dispatched_Emits) (auto dest: emit_depth)

lemma dispatched_infos [simp]: "dispatched (infos st as) = []"
  by (rule dispatched_Emits) (auto dest: infos_depth)

lemma dispatched_announces [simp]: "dispatched (announces c st) = []"
  by (cases c) simp_all

lemma Dispatch_emit [simp]: "Dispatch d i \<notin> set (emit st ev args)"
  by (auto dest: emit_depth)

lemma Dispatch_infos [simp]: "Dispatch d i \<notin> set (infos st as)"
  by (auto dest: infos_depth)

lemma Dispatch_announces [simp]: "Dispatch d i \<notin> set (announces c st)"
  by (cases c) simp_all









subsection \<open>The entry of a running queue\<close>

text \<open>The entry a running queue belongs to is the one dispatched last.\<close>

lemma last_dispatch_append:
  "last_dispatch d (xs @ ys) =
     (case last_dispatch d ys of Some i \<Rightarrow> Some i | None \<Rightarrow> last_dispatch d xs)"
  by (induction xs) (auto split: option.splits)

lemma last_dispatch_none: "\<forall>i. Dispatch d i \<notin> set tr \<Longrightarrow> last_dispatch d tr = None"
  by (induction tr) (auto split: option.splits action.splits)

lemma traced_append:
  assumes "traced st tr" "\<forall>d i. Dispatch d i \<in> set new \<longrightarrow> length st - 1 \<le> d"
  shows "traced st (tr @ new)"
  using assms
proof (induction st tr rule: traced.induct)
  case (1 sub parent rest tr)
  have "\<forall>i. Dispatch (length rest) i \<notin> set new" using "1.prems"(2) by fastforce
  then have "last_dispatch (length rest) new = None" by (rule last_dispatch_none)
  moreover have "traced (parent # rest) (tr @ new)"
    using "1.IH" "1.prems" by fastforce
  ultimately show ?case using "1.prems"(1) by (simp add: last_dispatch_append)
qed simp_all

lemma traced_same:
  "awaiter a = awaiter b \<Longrightarrow> traced (a # st) tr = traced (b # st) tr"
  by (cases st) (simp_all add: entry_of_def)

lemma traced_tl: "traced (a # st) tr \<Longrightarrow> traced st tr"
  by (cases st) simp_all

lemma traced_over: "traced (xs @ ys) tr \<Longrightarrow> traced ys tr"
  by (induction xs) (auto dest: traced_tl)

lemma traced_push:
  assumes "traced (this # parents) tr" "awaiter this' = awaiter this"
    "entry_of child this' = i"
  shows "traced (child # this' # parents) (tr @ [Dispatch (length parents) i, Setup k])"
proof -
  have "traced (this' # parents) tr" using assms(1,2) traced_same[of this' this] by simp
  then have "traced (this' # parents) (tr @ [Dispatch (length parents) i, Setup k])"
    by (rule traced_append) simp
  then show ?thesis using assms(3) by (simp add: last_dispatch_append)
qed

lemma proceeds_traced:
  assumes "proceeds (this # parents) st' cbs new" "traced (this # parents) tr"
  shows "traced st' (tr @ new)"
  using assms(1)
proof (cases rule: proceeds.cases)
  case finishes
  have "traced (this # parents) (tr @ new)"
    using finishes by (intro traced_append[OF assms(2)]) simp
  then show ?thesis using finishes by simp
next
  case rests
  then show ?thesis using assms(2) by simp
next
  case (calls_test name fn)
  have "traced (this # parents) (tr @ new)"
    using calls_test by (intro traced_append[OF assms(2)]) simp
  then show ?thesis using calls_test traced_same[of "this\<lparr>cursor := cursor this + 1\<rparr>" this] by simp
next
  case (runs_queue name q)
  show ?thesis unfolding runs_queue
    by (rule traced_push[OF assms(2)]) (simp_all add: entry_of_def)
next
  case (run_throws name q e)
  show ?thesis unfolding run_throws
    by (rule traced_push[OF assms(2)]) (simp_all add: entry_of_def)
qed

lemma traced_step:
  assumes "traced (stack s) (trace s)"
  shows "traced (stack (step s)) (trace (step s))"
proof (cases "scheduled s")
  case Nil
  then show ?thesis using assms by (simp add: step_idle)
next
  case (Cons c cs)
  from step_effect[OF Cons] obtain st' cbs new where
    eff: "effect c (stack s) st' cbs new" and st: "stack (step s) = st'"
    and tr: "trace (step s) = trace s @ new" by blast
  from eff have "traced st' (trace s @ new)"
  proof (cases rule: effect.cases)
    case starts
    have "traced (stack s) (trace s @ new)"
      using starts by (intro traced_append[OF assms]) simp
    then show ?thesis using starts by simp
  next
    case (handles this parents tr0)
    have "traced (account c this # parents) (trace s)"
      using assms handles(1) traced_same[of "account c this" this] by simp
    then have "traced (account c this # parents) (trace s @ announces c (this # parents))"
      by (rule traced_append) simp
    from proceeds_traced[OF handles(5) this] handles(2) show ?thesis by simp
  next
    case (settles_outermost res this)
    then show ?thesis by simp
  next
    case (settles_nested res this parent ps)
    from assms settles_nested(2) have "traced (parent # ps) (trace s)" by simp
    then have "traced (parent # ps) (trace s @ new)"
      by (rule traced_append) (use settles_nested in simp)
    then show ?thesis using settles_nested by simp
  next
    case no_queue
    then show ?thesis by simp
  qed
  then show ?thesis by (simp add: st tr)
qed

lemma traced_steps: "traced (stack (steps n (launch q))) (trace (steps n (launch q)))"
  by (rule steps_invariant[where I = "\<lambda>s. traced (stack s) (trace s)"])
     (simp_all add: launch_state traced_step)


section \<open>The claims\<close>

subsection \<open>C1: stopping at the first failure\<close>

text \<open>
  Claim C1, as amended. A queue with \<^verbatim>\<open>stopOnFail\<close>, with a setup and a teardown
  function that complete, whose entry at index \<open>k\<close> is a test function that
  fails and whose entries before it are test functions that pass: the run
  settles after \<open>k + 4\<close> steps, its promise is rejected with \<open>k\<close> passed and one
  failed, these are the counters of the queue, and at no time has an entry
  after index \<open>k\<close> been dispatched.
\<close>

theorem stop_on_first_failure:
  assumes "stopOnFail q" "tests q = before @ e # rest"
    and "\<forall>x\<in>set before. passing x" "failing e"
    and "completes (setupFn q)" "completes (teardownFn q)"
  shows "outcome (steps (length before + 4 + m) (launch q))
           = Rejected \<lparr>passed = length before, failed = 1\<rparr> \<and>
         passed (hd (stack (steps (length before + 4 + m) (launch q)))) = length before \<and>
         failed (hd (stack (steps (length before + 4 + m) (launch q)))) = 1 \<and>
         (\<forall>d j. Dispatch d j \<in> set (trace (steps n (launch q))) \<longrightarrow> d = 0 \<and> j \<le> length before)"
proof -
  note fin = run_stops[OF assms]
  have "d = 0 \<and> j \<le> length before" if "Dispatch d j \<in> set (trace (steps n (launch q)))" for d j
  proof -
    from that trace_before_rest[of "length before + 4" "launch q", OF fin, of n]
    have "Dispatch d j \<in> set (entries_trace 0 (before @ [e]))" by auto
    from Dispatch_entries_trace[OF this] show ?thesis by simp
  qed
  then show ?thesis by (simp add: fin)
qed

text \<open>The queue \<^verbatim>\<open>a\<close> passes, \<^verbatim>\<open>b\<close> fails, \<^verbatim>\<open>c\<close> passes: \<^verbatim>\<open>c\<close> is never run.\<close>

theorem stop_on_first_failure_witness:
  "stopOnFail (pass_fail_pass None) \<and>
   tests (pass_fail_pass None) = [(Str ''a'', Fn passes)] @ (Str ''b'', Fn fails) # [(Str ''c'', Fn passes)] \<and>
   passing (Str ''a'', Fn passes) \<and> failing (Str ''b'', Fn fails) \<and>
   completes (setupFn (pass_fail_pass None)) \<and> completes (teardownFn (pass_fail_pass None)) \<and>
   outcome (steps 5 (launch (pass_fail_pass None))) = Rejected \<lparr>passed = 1, failed = 1\<rparr> \<and>
   Dispatch 0 2 \<notin> set (trace (steps 5 (launch (pass_fail_pass None))))"
proof -
  have h: "stopOnFail (pass_fail_pass None)"
    "tests (pass_fail_pass None) = [(Str ''a'', Fn passes)] @ (Str ''b'', Fn fails) # [(Str ''c'', Fn passes)]"
    "\<forall>x\<in>set [(Str ''a'', Fn passes)]. passing x" "failing (Str ''b'', Fn fails)"
    "completes (setupFn (pass_fail_pass None))" "completes (teardownFn (pass_fail_pass None))"
    by (simp_all add: pass_fail_pass_def new_TestQueue_def addTest_def passes_def fails_def
        new_Promise_def completes_def)
  from stop_on_first_failure[OF h, of 0 5]
  have a: "outcome (steps 5 (launch (pass_fail_pass None))) = Rejected \<lparr>passed = 1, failed = 1\<rparr>"
    and b: "\<forall>d j. Dispatch d j \<in> set (trace (steps 5 (launch (pass_fail_pass None)))) \<longrightarrow>
              d = 0 \<and> j \<le> length [(Str ''a'', Fn passes)]"
    by simp_all
  have "Dispatch 0 2 \<notin> set (trace (steps 5 (launch (pass_fail_pass None))))"
  proof
    assume "Dispatch 0 2 \<in> set (trace (steps 5 (launch (pass_fail_pass None))))"
    with b have "(2::nat) \<le> length [(Str ''a'', Fn passes)]" by blast
    then show False by simp
  qed
  with a h show ?thesis by simp
qed

text \<open>
  Claim C1 as stated counts entries, and a nested queue is an entry. Two passing
  tests in a nested queue at index 0 and a failing test at index 1 give two
  passed, not one; a nested queue of two failing tests at index 0, itself not
  stopping, gives two failed, not one.
\<close>

theorem stop_on_first_failure_counterexample:
  "stopOnFail nested_then_fail \<and>
   tests nested_then_fail = [(Str ''sub'', Queue two_passes), (Str ''b'', Fn fails)] \<and>
   Settle 1 (Fulfilled \<lparr>passed = 2, failed = 0\<rparr>) \<in> set (trace (steps 10 (launch nested_then_fail))) \<and>
   failing (Str ''b'', Fn fails) \<and>
   outcome (steps 10 (launch nested_then_fail)) = Rejected \<lparr>passed = 2, failed = 1\<rparr> \<and>
   stopOnFail failing_nested \<and>
   tests failing_nested = [(Str ''sub'', Queue two_fails)] \<and>
   outcome (steps 9 (launch failing_nested)) = Rejected \<lparr>passed = 0, failed = 2\<rparr>"
  by code_simp

subsection \<open>C2: the results of a nested queue\<close>

text \<open>
  Claim C2. A nested queue \<open>sub\<close> is about to settle the promise of its run with
  the results \<open>res\<close>; the queue \<open>this\<close> that contains it has attached its two
  callbacks. Two steps later, when the promise was fulfilled, \<open>this\<close> has added
  \<open>passed res\<close> to its passed counter, and nothing to its failed counter, and has
  gone on with \<^verbatim>\<open>_testQueueNext\<close>; when it was rejected, \<open>this\<close> has added
  \<open>passed res\<close> and \<open>failed res\<close> to its counters, and no further failure, and has
  gone on with \<^verbatim>\<open>_onFinish\<close> if it stops on failure and with \<^verbatim>\<open>_testQueueNext\<close>
  otherwise.
\<close>

theorem nested_results:
  assumes "stack s = sub # this # parents" "awaiter sub = Some name"
    and "scheduled s = [TeardownThen res]"
  shows "step (step s) =
     (if failed sub > 0
      then (if stopOnFail (self this) then onFinish else testQueueNext)
             \<lparr>stack = this\<lparr>failed := failed this + failed res,
                             passed := passed this + passed res\<rparr> # parents,
              scheduled = [],
              trace = trace s @ [Settle (Suc (length parents)) (Rejected res)],
              outcome = outcome s\<rparr>
      else testQueueNext
             \<lparr>stack = this\<lparr>passed := passed this + passed res\<rparr> # parents,
              scheduled = [],
              trace = trace s @ [Settle (Suc (length parents)) (Fulfilled res)],
              outcome = outcome s\<rparr>)"
proof (cases "failed sub > 0")
  case True
  have "step s = \<lparr>stack = this # parents, scheduled = [OnErrorQueue name res],
      trace = trace s @ [Settle (Suc (length parents)) (Rejected res)], outcome = outcome s\<rparr>"
    using assms True by (cases s) (simp add: step_def settle_def Let_def promise_then_def)
  then show ?thesis using True
    by (simp add: step_def onErrorQueue_def Let_def)
next
  case False
  have "step s = \<lparr>stack = this # parents, scheduled = [OnPassQueue name res],
      trace = trace s @ [Settle (Suc (length parents)) (Fulfilled res)], outcome = outcome s\<rparr>"
    using assms False by (cases s) (simp add: step_def settle_def Let_def promise_then_def)
  then show ?thesis using False
    by (simp add: step_def onPassQueue_def Let_def)
qed

text \<open>
  A nested queue with two passes and one failure: the counters of the queue
  that contains it go from 0 and 0 to 2 and 1.
\<close>

theorem nested_results_witness:
  "awaiter (hd (stack (steps 7 (launch nested_mixed)))) = Some (Str ''sub'') \<and>
   scheduled (steps 7 (launch nested_mixed)) = [TeardownThen \<lparr>passed = 2, failed = 1\<rparr>] \<and>
   failed (hd (stack (steps 7 (launch nested_mixed)))) > 0 \<and>
   passed (hd (tl (stack (steps 7 (launch nested_mixed))))) = 0 \<and>
   failed (hd (tl (stack (steps 7 (launch nested_mixed))))) = 0 \<and>
   passed (hd (stack (step (step (steps 7 (launch nested_mixed)))))) = 2 \<and>
   failed (hd (stack (step (step (steps 7 (launch nested_mixed)))))) = 1"
proof -
  let ?s = "steps 7 (launch nested_mixed)"
  have h1: "stack ?s = hd (stack ?s) # hd (tl (stack ?s)) # []" by code_simp
  have h2: "awaiter (hd (stack ?s)) = Some (Str ''sub'')" by code_simp
  have h3: "scheduled ?s = [TeardownThen \<lparr>passed = 2, failed = 1\<rparr>]" by code_simp
  note eq = nested_results[OF h1 h2 h3]
  have a: "passed (hd (stack (step (step ?s)))) = 2" unfolding eq by code_simp
  have b: "failed (hd (stack (step (step ?s)))) = 1" unfolding eq by code_simp
  have c: "failed (hd (stack ?s)) > 0" "passed (hd (tl (stack ?s))) = 0"
    "failed (hd (tl (stack ?s))) = 0" by code_simp+
  from h2 h3 a b c show ?thesis by blast
qed


subsection \<open>C3: a queue that goes on after a failure\<close>

text \<open>
  Claim C3, as amended. A queue without \<^verbatim>\<open>stopOnFail\<close> of \<open>N\<close> test functions, each
  of which passes or fails, with a setup and a teardown function that complete:
  every entry is dispatched, in order; the counters end as the number \<open>P\<close> of
  passing and the number \<open>F\<close> of failing entries; the promise is rejected with
  them when \<open>F > 0\<close> and fulfilled with them otherwise.
\<close>

theorem without_stop:
  assumes "\<not> stopOnFail q" "\<forall>e\<in>set (tests q). passing e \<or> failing e"
    and "completes (setupFn q)" "completes (teardownFn q)"
  shows "outcome (steps (length (tests q) + 3 + m) (launch q)) =
           (if length (filter failing (tests q)) > 0
            then Rejected \<lparr>passed = length (filter passing (tests q)),
                           failed = length (filter failing (tests q))\<rparr>
            else Fulfilled \<lparr>passed = length (filter passing (tests q)),
                            failed = length (filter failing (tests q))\<rparr>) \<and>
         passed (hd (stack (steps (length (tests q) + 3 + m) (launch q))))
           = length (filter passing (tests q)) \<and>
         failed (hd (stack (steps (length (tests q) + 3 + m) (launch q))))
           = length (filter failing (tests q)) \<and>
         filter is_Dispatch (trace (steps (length (tests q) + 3 + m) (launch q)))
           = map (Dispatch 0) [0..<length (tests q)]"
proof -
  have "\<forall>e\<in>set (tests q). passing e \<or> (failing e \<and> \<not> stopOnFail q)"
    using assms(1,2) by auto
  note fin = run_to_end[OF assms(3,4) this, of m]
  show ?thesis unfolding fin using Dispatches_entries_trace[OF assms(2), of 0] by simp
qed

theorem without_stop_witness:
  "\<not> stopOnFail (pass_fail_pass (Some False)) \<and>
   tests (pass_fail_pass (Some False)) =
     [(Str ''a'', Fn passes), (Str ''b'', Fn fails), (Str ''c'', Fn passes)] \<and>
   passing (Str ''a'', Fn passes) \<and> failing (Str ''b'', Fn fails) \<and> passing (Str ''c'', Fn passes) \<and>
   completes (setupFn (pass_fail_pass (Some False))) \<and>
   completes (teardownFn (pass_fail_pass (Some False))) \<and>
   outcome (steps 6 (launch (pass_fail_pass (Some False)))) = Rejected \<lparr>passed = 2, failed = 1\<rparr> \<and>
   filter is_Dispatch (trace (steps 6 (launch (pass_fail_pass (Some False)))))
     = map (Dispatch 0) [0..<3]"
proof -
  have t: "tests (pass_fail_pass (Some False)) =
      [(Str ''a'', Fn passes), (Str ''b'', Fn fails), (Str ''c'', Fn passes)]"
    by (simp add: pass_fail_pass_def new_TestQueue_def addTest_def)
  have cnt: "length (tests (pass_fail_pass (Some False))) = 3"
    "length (filter passing (tests (pass_fail_pass (Some False)))) = 2"
    "length (filter failing (tests (pass_fail_pass (Some False)))) = 1"
    by (simp_all add: t passes_def fails_def new_Promise_def)
  have h: "\<not> stopOnFail (pass_fail_pass (Some False))"
    "\<forall>e\<in>set (tests (pass_fail_pass (Some False))). passing e \<or> failing e"
    "completes (setupFn (pass_fail_pass (Some False)))"
    "completes (teardownFn (pass_fail_pass (Some False)))"
    by (simp_all add: t passes_def fails_def new_Promise_def)
       (simp_all add: pass_fail_pass_def new_TestQueue_def addTest_def completes_def)
  have pf: "passing (Str ''a'', Fn passes)" "failing (Str ''b'', Fn fails)"
    "passing (Str ''c'', Fn passes)"
    by (simp_all add: passes_def fails_def new_Promise_def)
  note w = without_stop[OF h, of 0, unfolded cnt]
  from w have a: "outcome (steps 6 (launch (pass_fail_pass (Some False))))
      = Rejected \<lparr>passed = 2, failed = 1\<rparr>"
    and d: "filter is_Dispatch (trace (steps 6 (launch (pass_fail_pass (Some False)))))
      = map (Dispatch 0) [0..<3]"
    by simp_all
  from a d h(1,3,4) t pf show ?thesis by blast
qed

text \<open>
  Claim C3 as stated holds for every such queue. With a teardown function that
  throws, the queue comes to rest with its promise pending although a test has
  failed.
\<close>

theorem without_stop_counterexample:
  "\<not> stopOnFail (throwing_teardown (pass_fail_pass (Some False))) \<and>
   tests (throwing_teardown (pass_fail_pass (Some False))) =
     [(Str ''a'', Fn passes), (Str ''b'', Fn fails), (Str ''c'', Fn passes)] \<and>
   failing (Str ''b'', Fn fails) \<and>
   scheduled (steps 5 (launch (throwing_teardown (pass_fail_pass (Some False))))) = [] \<and>
   outcome (steps 5 (launch (throwing_teardown (pass_fail_pass (Some False))))) = Pending"
  by code_simp

subsection \<open>C4: a test function that throws\<close>

text \<open>
  Claim C4, as amended. \<^verbatim>\<open>_testQueueNext\<close> dispatches a test function that does
  not call \<^verbatim>\<open>pass\<close> or \<^verbatim>\<open>fail\<close>; the queues that contain the running queue have
  their callbacks attached to the promises of the queues they run.

  If the function throws, it is a failure: the callback \<^verbatim>\<open>_onError\<close> is scheduled
  with the thrown value; its call emits \<^verbatim>\<open>fail\<close> with the name and the thrown
  value and adds one to the failed counter; a queue that stops on failure
  builds its results from this counter at once, and when its teardown function
  completes the next step rejects its promise with them. And the failure stays
  counted: for the queue of the test and for every queue that contains it, the
  failures counted in it are one more than before and never fewer again while
  it runs, the results with which its promise is settled count at least as
  many, and so do the results with which the promise of the run is settled.

  If the function returns, a rejected promise or anything else, what it
  returns is not looked at: nothing is scheduled; the dispatch and the \<^verbatim>\<open>info\<close>
  events of the function are recorded, and no other event of the queue, so no
  \<^verbatim>\<open>fail\<close>; the counters stay as they are; and no later step changes the state,
  so that the entry never has an outcome and the promise of the run is never
  settled.
\<close>

theorem thrown_is_failure:
  assumes "stack s = this # parents" "scheduled s = []"
    and "cursor this < length (tests (self this))"
    and "tests (self this) ! cursor this = (name, Fn fn)"
    and "first_call (acts fn) = Pending"
    and "\<forall>f\<in>set (butlast (this # parents)). awaiter f \<noteq> None"
  shows
    "(ending fn = Throw e \<longrightarrow>
        scheduled (testQueueNext s) = [OnError name e] \<and>
        step (testQueueNext s) =
          (if stopOnFail (self this) then onFinish else testQueueNext)
            \<lparr>stack = this\<lparr>cursor := cursor this + 1, failed := failed this + 1\<rparr> # parents,
             scheduled = [],
             trace = trace s @ Dispatch (length parents) (cursor this) #
                       infos (this # parents) (acts fn) @ emit (this # parents) ''fail'' [name, e],
             outcome = outcome s\<rparr> \<and>
        (stopOnFail (self this) \<longrightarrow>
           scheduled (step (testQueueNext s)) =
             hook_then (teardownFn (self this))
               (TeardownThen \<lparr>passed = passed this, failed = failed this + 1\<rparr>)) \<and>
        (stopOnFail (self this) \<and> completes (teardownFn (self this)) \<longrightarrow>
           trace (step (step (testQueueNext s))) =
             trace (step (testQueueNext s)) @
             [Settle (length parents) (Rejected \<lparr>passed = passed this, failed = failed this + 1\<rparr>)]) \<and>
        (\<forall>n d. d \<le> length parents \<longrightarrow>
           kept (tally d s + 1) d
             (drop (length (trace s)) (trace (steps n (step (testQueueNext s)))))
             (steps n (step (testQueueNext s)))) \<and>
        (outcome s = Pending \<longrightarrow>
           (\<forall>n r. outcome (steps n (step (testQueueNext s))) = Fulfilled r \<or>
                  outcome (steps n (step (testQueueNext s))) = Rejected r \<longrightarrow>
                  tally 0 s + 1 \<le> failed r))) \<and>
     (ending fn = Return \<or> ending fn = ReturnRejected e \<longrightarrow>
        testQueueNext s =
          \<lparr>stack = this\<lparr>cursor := cursor this + 1\<rparr> # parents,
           scheduled = [],
           trace = trace s @ Dispatch (length parents) (cursor this) #
                     infos (this # parents) (acts fn),
           outcome = outcome s\<rparr> \<and>
        (\<forall>ev args. Emit (length parents) ev args \<in> set (infos (this # parents) (acts fn)) \<longrightarrow>
           ev = ''info'') \<and>
        (\<forall>n. steps n (testQueueNext s) = testQueueNext s) \<and>
        (\<forall>n. outcome (steps n (testQueueNext s)) = outcome s))"
proof (intro conjI impI)
  assume thr: "ending fn = Throw e"
  let ?this1 = "this\<lparr>cursor := cursor this + 1\<rparr>"
  let ?this2 = "this\<lparr>cursor := cursor this + 1, failed := failed this + 1\<rparr>"
  let ?tr = "Dispatch (length parents) (cursor this) #
               infos (this # parents) (acts fn) @ emit (this # parents) ''fail'' [name, e]"
  let ?X = "\<lparr>stack = ?this2 # parents, scheduled = [], trace = trace s @ ?tr, outcome = outcome s\<rparr>"
  let ?t0 = "testQueueNext s"
  let ?t1 = "step (testQueueNext s)"
  have next1: "?t0 =
     \<lparr>stack = ?this1 # parents, scheduled = [OnError name e],
      trace = trace s @ Dispatch (length parents) (cursor this) # infos (this # parents) (acts fn),
      outcome = outcome s\<rparr>"
    using testQueueNext_leaf[OF assms(1,3,4)] assms(1,2) throw_rejects[OF assms(5) thr]
    by (cases s) (simp add: promise_then_def)
  then show "scheduled ?t0 = [OnError name e]" by simp
  show step1: "?t1 = (if stopOnFail (self this) then onFinish else testQueueNext) ?X"
    unfolding next1
    by (simp add: step_def onError_frame[of _ ?this1 parents] Let_def)
  show fin: "scheduled ?t1 =
          hook_then (teardownFn (self this))
            (TeardownThen \<lparr>passed = passed this, failed = failed this + 1\<rparr>)"
    if "stopOnFail (self this)"
    unfolding step1 using that by (simp add: onFinish_def Let_def)
  show "trace (step ?t1) =
          trace ?t1 @
          [Settle (length parents) (Rejected \<lparr>passed = passed this, failed = failed this + 1\<rparr>)]"
    if "stopOnFail (self this) \<and> completes (teardownFn (self this))"
  proof -
    from that have "?t1 = (onFinish ?X)" unfolding step1 by simp
    also have "\<dots> = \<lparr>stack = ?this2 # parents,
        scheduled = [TeardownThen \<lparr>passed = passed this, failed = failed this + 1\<rparr>],
        trace = trace s @ ?tr @
          emit (this # parents) ''finish'' [Obj \<lparr>passed = passed this, failed = failed this + 1\<rparr>]
          @ [Teardown (length parents)],
        outcome = outcome s\<rparr>"
      using that by (simp add: onFinish_def Let_def hook_then_completes)
    finally have t1: "?t1 = \<lparr>stack = ?this2 # parents,
        scheduled = [TeardownThen \<lparr>passed = passed this, failed = failed this + 1\<rparr>],
        trace = trace s @ ?tr @
          emit (this # parents) ''finish'' [Obj \<lparr>passed = passed this, failed = failed this + 1\<rparr>]
          @ [Teardown (length parents)],
        outcome = outcome s\<rparr>" .
    show ?thesis unfolding t1
      by (simp add: step_def settle_def Let_def split: list.splits option.splits)
  qed
  have sound0: "sound ?t0"
    unfolding next1 using assms(6)
    by (auto simp: sound_def winding_up_def awaited_def split: if_splits)
  then have sound1: "sound ?t1" by (rule sound_step)
  obtain st' cbs tr where p: "proceeds (stack ?X) st' cbs tr"
    and eq: "?t1 = ?X\<lparr>stack := st', scheduled := scheduled ?X @ cbs, trace := trace ?X @ tr\<rparr>"
    unfolding step1 using proceeds_onFinish[of ?X] proceeds_testQueueNext[of ?X]
    by (cases "stopOnFail (self this)") auto
  from p have p': "proceeds (?this2 # parents) st' cbs tr" by simp
  have old: "tally d s = failed this + sum_list (map failed (take (length parents - d) parents))"
    if "d \<le> length parents" for d
    using that assms(1,2) by (simp add: tally_def take_top)
  have new: "d < length (stack ?t1) \<and> tally d ?t1 = tally d s + 1" if "d \<le> length parents" for d
    using proceeds_tally[OF p' that] old[OF that] unfolding eq by (simp add: tally_def)
  have nos: "first_settle d (drop (length (trace s)) (trace ?t1)) = None" for d
    unfolding eq first_settle_None using proceeds_no_Settle[OF p] by simp
  have len: "length (trace s) \<le> length (trace ?t1)" unfolding eq by simp
  show "\<forall>n d. d \<le> length parents \<longrightarrow>
           kept (tally d s + 1) d
             (drop (length (trace s)) (trace (steps n ?t1))) (steps n ?t1)"
  proof (intro allI impI)
    fix n d assume d: "d \<le> length parents"
    have "kept (tally d s + 1) d (drop (length (trace s)) (trace ?t1)) ?t1"
      using new[OF d] nos[of d] by (simp add: kept_def)
    from kept_steps[OF sound1 len this]
    show "kept (tally d s + 1) d (drop (length (trace s)) (trace (steps n ?t1))) (steps n ?t1)" .
  qed
  show "\<forall>n r. outcome (steps n ?t1) = Fulfilled r \<or> outcome (steps n ?t1) = Rejected r \<longrightarrow>
             tally 0 s + 1 \<le> failed r"
    if pend: "outcome s = Pending"
  proof (intro allI impI)
    fix n r assume o: "outcome (steps n ?t1) = Fulfilled r \<or> outcome (steps n ?t1) = Rejected r"
    have "outcome ?t1 = Pending" unfolding eq using pend by simp
    with new[of 0] have "counted (tally 0 s + 1) ?t1" by (simp add: counted_def)
    from counted_steps[OF sound1 this, of n] o show "tally 0 s + 1 \<le> failed r"
      by (auto simp: counted_def)
  qed
next
  assume ret: "ending fn = Return \<or> ending fn = ReturnRejected e"
  then have "\<forall>e. ending fn \<noteq> Throw e" by auto
  from no_throw_pending[OF assms(5) this] have pend: "new_Promise fn = Pending" .
  show next1: "testQueueNext s =
     \<lparr>stack = this\<lparr>cursor := cursor this + 1\<rparr> # parents, scheduled = [],
      trace = trace s @ Dispatch (length parents) (cursor this) # infos (this # parents) (acts fn),
      outcome = outcome s\<rparr>"
    using testQueueNext_leaf[OF assms(1,3,4)] assms(1,2) pend
    by (cases s) (simp add: promise_then_def)
  show "\<forall>ev args. Emit (length parents) ev args \<in> set (infos (this # parents) (acts fn)) \<longrightarrow>
           ev = ''info''"
    using infos_top by blast
  have idle: "steps n (testQueueNext s) = testQueueNext s" for n
    by (rule steps_idle) (simp add: next1)
  then show "\<forall>n. steps n (testQueueNext s) = testQueueNext s" by simp
  show "\<forall>n. outcome (steps n (testQueueNext s)) = outcome s"
    unfolding idle by (simp add: next1)
qed

text \<open>
  A queue with one test that throws. A queue that goes on after a failure, with
  a test that throws and one that passes, nested in a queue that stops: the
  results of both count the failure. And a queue with one test that returns a
  rejected promise.
\<close>

theorem thrown_is_failure_witness:
  "tests (one_test throws) ! 0 = (Str ''t'', Fn throws) \<and>
   first_call (acts throws) = Pending \<and> ending throws = Throw (Error ''X'') \<and>
   stopOnFail (one_test throws) \<and> completes (teardownFn (one_test throws)) \<and>
   scheduled (testQueueNext ((steps 1 (launch (one_test throws)))\<lparr>scheduled := []\<rparr>))
     = [OnError (Str ''t'') (Error ''X'')] \<and>
   trace (step (testQueueNext ((steps 1 (launch (one_test throws)))\<lparr>scheduled := []\<rparr>))) =
     [Setup 0, Emit 0 ''start'' [], Dispatch 0 0, Emit 0 ''fail'' [Str ''t'', Error ''X''],
      Emit 0 ''finish'' [Obj \<lparr>passed = 0, failed = 1\<rparr>], Teardown 0] \<and>
   trace (step (step (testQueueNext ((steps 1 (launch (one_test throws)))\<lparr>scheduled := []\<rparr>)))) =
     [Setup 0, Emit 0 ''start'' [], Dispatch 0 0, Emit 0 ''fail'' [Str ''t'', Error ''X''],
      Emit 0 ''finish'' [Obj \<lparr>passed = 0, failed = 1\<rparr>], Teardown 0,
      Settle 0 (Rejected \<lparr>passed = 0, failed = 1\<rparr>)] \<and>
   tests throws_then_passes ! 0 = (Str ''t'', Fn throws) \<and>
   self (hd (stack (steps 3 (launch nested_throws)))) = throws_then_passes \<and>
   first_settle 1 (drop (length (trace (steps 3 (launch nested_throws))))
       (trace (steps 4 (step (testQueueNext ((steps 3 (launch nested_throws))\<lparr>scheduled := []\<rparr>))))))
     = Some (Rejected \<lparr>passed = 1, failed = 1\<rparr>) \<and>
   kept 1 1 (drop (length (trace (steps 3 (launch nested_throws))))
       (trace (steps 4 (step (testQueueNext ((steps 3 (launch nested_throws))\<lparr>scheduled := []\<rparr>))))))
     (steps 4 (step (testQueueNext ((steps 3 (launch nested_throws))\<lparr>scheduled := []\<rparr>)))) \<and>
   kept 1 0 (drop (length (trace (steps 3 (launch nested_throws))))
       (trace (steps 4 (step (testQueueNext ((steps 3 (launch nested_throws))\<lparr>scheduled := []\<rparr>))))))
     (steps 4 (step (testQueueNext ((steps 3 (launch nested_throws))\<lparr>scheduled := []\<rparr>)))) \<and>
   outcome (steps 4 (step (testQueueNext ((steps 3 (launch nested_throws))\<lparr>scheduled := []\<rparr>))))
     = Rejected \<lparr>passed = 1, failed = 1\<rparr> \<and>
   tests (one_test returns_rejected) ! 0 = (Str ''t'', Fn returns_rejected) \<and>
   first_call (acts returns_rejected) = Pending \<and>
   ending returns_rejected = ReturnRejected (Error ''R'') \<and>
   testQueueNext ((steps 1 (launch (one_test returns_rejected)))\<lparr>scheduled := []\<rparr>) =
     steps 2 (launch (one_test returns_rejected)) \<and>
   trace (steps 9 (testQueueNext ((steps 1 (launch (one_test returns_rejected)))\<lparr>scheduled := []\<rparr>)))
     = [Setup 0, Emit 0 ''start'' [], Dispatch 0 0] \<and>
   outcome (steps 9 (testQueueNext ((steps 1 (launch (one_test returns_rejected)))\<lparr>scheduled := []\<rparr>)))
     = Pending"
proof -
  let ?q = "one_test throws"
  let ?f0 = "hd (stack (steps 1 (launch ?q)))"
  let ?s = "(steps 1 (launch ?q))\<lparr>scheduled := []\<rparr>"
  have h: "stack ?s = ?f0 # []" "scheduled ?s = []"
    "cursor ?f0 < length (tests (self ?f0))"
    "tests (self ?f0) ! cursor ?f0 = (Str ''t'', Fn throws)"
    "first_call (acts throws) = Pending"
    "\<forall>f\<in>set (butlast (?f0 # [])). awaiter f \<noteq> None"
    by code_simp+
  have thr: "ending throws = Throw (Error ''X'')" by code_simp
  have sof: "stopOnFail (self ?f0)" "stopOnFail (self ?f0) \<and> completes (teardownFn (self ?f0))"
    by code_simp+
  note t = thrown_is_failure[OF h, where e = "Error ''X''", THEN conjunct1, THEN mp, OF thr]
  note a = t[THEN conjunct1]
  note eq = t[THEN conjunct2, THEN conjunct1]
  note st = t[THEN conjunct2, THEN conjunct2, THEN conjunct2, THEN conjunct1, THEN mp, OF sof(2)]
  have d: "trace (step (testQueueNext ?s)) =
     [Setup 0, Emit 0 ''start'' [], Dispatch 0 0, Emit 0 ''fail'' [Str ''t'', Error ''X''],
      Emit 0 ''finish'' [Obj \<lparr>passed = 0, failed = 1\<rparr>], Teardown 0]"
    unfolding eq by code_simp
  have d2: "trace (step (step (testQueueNext ?s))) =
     [Setup 0, Emit 0 ''start'' [], Dispatch 0 0, Emit 0 ''fail'' [Str ''t'', Error ''X''],
      Emit 0 ''finish'' [Obj \<lparr>passed = 0, failed = 1\<rparr>], Teardown 0,
      Settle 0 (Rejected \<lparr>passed = 0, failed = 1\<rparr>)]"
    unfolding st d by code_simp
  have e: "tests ?q ! 0 = (Str ''t'', Fn throws)" "stopOnFail ?q" "completes (teardownFn ?q)"
    by code_simp+
  let ?n = "steps 3 (launch nested_throws)"
  let ?sub = "hd (stack ?n)" and ?par = "hd (tl (stack ?n))"
  let ?u = "?n\<lparr>scheduled := []\<rparr>"
  have hn: "stack ?u = ?sub # [?par]" "scheduled ?u = []"
    "cursor ?sub < length (tests (self ?sub))"
    "tests (self ?sub) ! cursor ?sub = (Str ''t'', Fn throws)"
    "first_call (acts throws) = Pending"
    "\<forall>f\<in>set (butlast (?sub # [?par])). awaiter f \<noteq> None"
    by code_simp+
  note tn = thrown_is_failure[OF hn, where e = "Error ''X''", THEN conjunct1, THEN mp, OF thr]
  note kn = tn[THEN conjunct2, THEN conjunct2, THEN conjunct2, THEN conjunct2, THEN conjunct1,
      THEN spec, of 4]
  have ty: "tally 1 ?u + 1 = 1" "tally 0 ?u + 1 = 1" "length (trace ?u) = length (trace ?n)"
    "(1::nat) \<le> length [?par]" "(0::nat) \<le> length [?par]"
    by code_simp+
  from kn[THEN spec, of 1, THEN mp, OF ty(4)] kn[THEN spec, of 0, THEN mp, OF ty(5)]
  have k: "kept 1 1 (drop (length (trace ?n)) (trace (steps 4 (step (testQueueNext ?u)))))
             (steps 4 (step (testQueueNext ?u)))"
    "kept 1 0 (drop (length (trace ?n)) (trace (steps 4 (step (testQueueNext ?u)))))
             (steps 4 (step (testQueueNext ?u)))"
    unfolding ty by simp_all
  have f: "tests throws_then_passes ! 0 = (Str ''t'', Fn throws)"
    "self ?sub = throws_then_passes"
    "first_settle 1 (drop (length (trace ?n)) (trace (steps 4 (step (testQueueNext ?u)))))
       = Some (Rejected \<lparr>passed = 1, failed = 1\<rparr>)"
    "outcome (steps 4 (step (testQueueNext ?u))) = Rejected \<lparr>passed = 1, failed = 1\<rparr>"
    by code_simp+
  let ?r = "one_test returns_rejected"
  let ?g0 = "hd (stack (steps 1 (launch ?r)))"
  let ?v = "(steps 1 (launch ?r))\<lparr>scheduled := []\<rparr>"
  have hr: "stack ?v = ?g0 # []" "scheduled ?v = []"
    "cursor ?g0 < length (tests (self ?g0))"
    "tests (self ?g0) ! cursor ?g0 = (Str ''t'', Fn returns_rejected)"
    "first_call (acts returns_rejected) = Pending"
    "\<forall>f\<in>set (butlast (?g0 # [])). awaiter f \<noteq> None"
    by code_simp+
  have ret: "ending returns_rejected = Return \<or> ending returns_rejected = ReturnRejected (Error ''R'')"
    by code_simp
  note tr = thrown_is_failure[OF hr, where e = "Error ''R''", THEN conjunct2, THEN mp, OF ret]
  note idle = tr[THEN conjunct2, THEN conjunct2, THEN conjunct1, THEN spec, of 9]
  have g: "testQueueNext ?v = steps 2 (launch ?r)"
    "trace (testQueueNext ?v) = [Setup 0, Emit 0 ''start'' [], Dispatch 0 0]"
    "outcome (testQueueNext ?v) = Pending"
    "tests ?r ! 0 = (Str ''t'', Fn returns_rejected)"
    "ending returns_rejected = ReturnRejected (Error ''R'')"
    by code_simp+
  have g': "trace (steps 9 (testQueueNext ?v)) = [Setup 0, Emit 0 ''start'' [], Dispatch 0 0]"
    "outcome (steps 9 (testQueueNext ?v)) = Pending"
    unfolding idle by (rule g(2), rule g(3))
  from a d d2 e h(5) thr k f g(1,4,5) g' hr(5) show ?thesis by blast
qed

text \<open>
  Claim C4 as stated also covers a test function that returns a rejected promise
  without calling a callback. The value a test function returns is not looked
  at: no \<^verbatim>\<open>fail\<close> event is emitted, the failed counter stays 0, and the queue
  comes to rest with the promise of its run pending.
\<close>

theorem thrown_is_failure_counterexample:
  "first_call (acts returns_rejected) = Pending \<and>
   ending returns_rejected = ReturnRejected (Error ''R'') \<and>
   tests (one_test returns_rejected) = [(Str ''t'', Fn returns_rejected)] \<and>
   trace (steps 3 (launch (one_test returns_rejected))) = [Setup 0, Emit 0 ''start'' [], Dispatch 0 0] \<and>
   failed (hd (stack (steps 3 (launch (one_test returns_rejected))))) = 0 \<and>
   scheduled (steps 3 (launch (one_test returns_rejected))) = [] \<and>
   outcome (steps 3 (launch (one_test returns_rejected))) = Pending"
  by code_simp


subsection \<open>C5: one entry at a time, in order\<close>





subsection \<open>C6: the order of finalization\<close>




subsection \<open>C7: the events of a nested queue\<close>

text \<open>
  Claim C7. In every state of the run of every queue, let \<open>sub\<close> be a running
  queue and \<open>parent\<close> the queue below it on the stack. Then \<open>sub\<close> is the queue of
  the entry that \<open>parent\<close> has dispatched last, with a name \<open>name\<close>; the index of
  this entry is one less than the cursor of \<open>parent\<close>, unless \<^verbatim>\<open>run\<close> of \<open>sub\<close>
  threw and left the cursor on it; otherwise \<open>name\<close> is also the name bound in the
  callbacks \<open>parent\<close> has attached. The listeners of \<open>sub\<close> are those its object had
  before, followed by the five of this dispatch. So whenever \<open>sub\<close> emits \<^verbatim>\<open>pass\<close>, \<^verbatim>\<open>fail\<close> or \<^verbatim>\<open>info\<close>,
  what happens is: the event on \<open>sub\<close>, what the earlier listeners do, and then
  \<open>parent\<close> emits the same event with the same arguments; when \<open>sub\<close> emits
  \<^verbatim>\<open>start\<close>, \<open>parent\<close> emits \<^verbatim>\<open>start\<close> with \<open>name\<close> put before the arguments; when
  \<open>sub\<close> emits \<^verbatim>\<open>finish\<close>, \<open>parent\<close> emits \<^verbatim>\<open>finish\<close> with the first argument, the
  results, and \<open>name\<close>. Here \<open>emit (parent # rest) ev args\<close> is what
  \<^verbatim>\<open>parent.emit(ev, args...)\<close> does: its first action is \<open>Emit (length rest) ev args\<close>.
  On an object without listeners the earlier ones do nothing and \<open>parent\<close> emits
  once; the listeners an earlier run has left make \<open>parent\<close> emit once more each.
\<close>

theorem events_bubble:
  assumes "stack (steps n (launch q)) = inner @ sub # parent # rest"
  shows "\<exists>name.
     last_dispatch (length rest) (trace (steps n (launch q))) = Some (entry_of sub parent) \<and>
     entry_of sub parent < length (tests (self parent)) \<and>
     tests (self parent) ! entry_of sub parent = (name, Queue (self sub)) \<and>
     awaiter sub = (if hook_throws (setupFn (self sub)) then None else Some name) \<and>
     (awaiter sub = None \<or> 0 < cursor parent) \<and>
     listeners sub = registered (self sub) @ relays name \<and>
     (\<forall>args. emit (sub # parent # rest) ''pass'' args =
        Emit (Suc (length rest)) ''pass'' args #
        earlier sub (parent # rest) ''pass'' args @ emit (parent # rest) ''pass'' args) \<and>
     (\<forall>args. emit (sub # parent # rest) ''fail'' args =
        Emit (Suc (length rest)) ''fail'' args #
        earlier sub (parent # rest) ''fail'' args @ emit (parent # rest) ''fail'' args) \<and>
     (\<forall>args. emit (sub # parent # rest) ''info'' args =
        Emit (Suc (length rest)) ''info'' args #
        earlier sub (parent # rest) ''info'' args @ emit (parent # rest) ''info'' args) \<and>
     (\<forall>args. emit (sub # parent # rest) ''start'' args =
        Emit (Suc (length rest)) ''start'' args #
        earlier sub (parent # rest) ''start'' args @ emit (parent # rest) ''start'' (name # args)) \<and>
     (\<forall>args. emit (sub # parent # rest) ''finish'' args =
        Emit (Suc (length rest)) ''finish'' args #
        earlier sub (parent # rest) ''finish'' args @
        emit (parent # rest) ''finish'' [first_arg args, name]) \<and>
     (registered (self sub) = [] \<longrightarrow>
        (\<forall>ev args. earlier sub (parent # rest) ev args = []))"
proof -
  let ?i = "entry_of sub parent"
  let ?name = "fst (tests (self parent) ! ?i)"
  have "relayed (inner @ sub # parent # rest)"
    using relayed_steps[of n q] unfolding assms .
  then have "relayed (sub # parent # rest)" by (rule relayed_append)
  then have i: "?i < length (tests (self parent))"
    "snd (tests (self parent) ! ?i) = Queue (self sub)"
    "listeners sub = registered (self sub) @ relays ?name"
    "awaiter sub = (if hook_throws (setupFn (self sub)) then None else Some ?name)"
    "awaiter sub = None \<or> 0 < cursor parent"
    by (auto split: if_splits)
  have e: "tests (self parent) ! ?i = (?name, Queue (self sub))"
    using i(2) by (metis prod.collapse)
  note r = emit_relays[OF i(3), of "parent # rest", folded earlier_def]
  have none: "earlier sub (parent # rest) ev args = []" if "registered (self sub) = []" for ev args
    using that by (simp add: earlier_def handlers_for_def)
  have "traced (inner @ sub # parent # rest) (trace (steps n (launch q)))"
    using traced_steps[of n q] unfolding assms .
  then have "traced (sub # parent # rest) (trace (steps n (launch q)))" by (rule traced_over)
  then have l: "last_dispatch (length rest) (trace (steps n (launch q))) = Some (entry_of sub parent)"
    by simp
  show ?thesis
  proof (intro exI[of _ ?name] conjI allI impI)
    show "emit (sub # parent # rest) ''pass'' args =
        Emit (Suc (length rest)) ''pass'' args #
        earlier sub (parent # rest) ''pass'' args @ emit (parent # rest) ''pass'' args" for args
      using r(1)[of args] by simp
    show "emit (sub # parent # rest) ''fail'' args =
        Emit (Suc (length rest)) ''fail'' args #
        earlier sub (parent # rest) ''fail'' args @ emit (parent # rest) ''fail'' args" for args
      using r(2)[of args] by simp
    show "emit (sub # parent # rest) ''info'' args =
        Emit (Suc (length rest)) ''info'' args #
        earlier sub (parent # rest) ''info'' args @ emit (parent # rest) ''info'' args" for args
      using r(3)[of args] by simp
    show "emit (sub # parent # rest) ''start'' args =
        Emit (Suc (length rest)) ''start'' args #
        earlier sub (parent # rest) ''start'' args @ emit (parent # rest) ''start'' (?name # args)"
      for args
      using r(4)[of args] by simp
    show "emit (sub # parent # rest) ''finish'' args =
        Emit (Suc (length rest)) ''finish'' args #
        earlier sub (parent # rest) ''finish'' args @
        emit (parent # rest) ''finish'' [first_arg args, ?name]" for args
      using r(5)[of args] by simp
  qed (use i e none l in simp_all)
qed

text \<open>
  The queue that holds two passing tests in a nested queue named \<^verbatim>\<open>sub\<close>, in its
  first run and in its second: there the queue emits every \<^verbatim>\<open>pass\<close> of the nested
  queue twice.
\<close>

theorem events_bubble_witness:
  "stack (steps 2 (launch nested_passes)) =
     [] @ hd (stack (steps 2 (launch nested_passes)))
        # hd (tl (stack (steps 2 (launch nested_passes)))) # [] \<and>
   tests nested_passes ! 0 = (Str ''sub'', Queue two_passes) \<and>
   self (hd (stack (steps 2 (launch nested_passes)))) = two_passes \<and>
   emit (stack (steps 2 (launch nested_passes))) ''pass'' [Str ''x'', Undefined] =
     [Emit 1 ''pass'' [Str ''x'', Undefined], Emit 0 ''pass'' [Str ''x'', Undefined]] \<and>
   emit (stack (steps 2 (launch nested_passes))) ''start'' [] =
     [Emit 1 ''start'' [], Emit 0 ''start'' [Str ''sub'']] \<and>
   emit (stack (steps 2 (launch nested_passes))) ''finish'' [Obj \<lparr>passed = 2, failed = 0\<rparr>] =
     [Emit 1 ''finish'' [Obj \<lparr>passed = 2, failed = 0\<rparr>],
      Emit 0 ''finish'' [Obj \<lparr>passed = 2, failed = 0\<rparr>, Str ''sub'']] \<and>
   stack (steps 2 (launch nested_passes_again)) =
     [] @ hd (stack (steps 2 (launch nested_passes_again)))
        # hd (tl (stack (steps 2 (launch nested_passes_again)))) # [] \<and>
   emit (stack (steps 2 (launch nested_passes_again))) ''pass'' [Str ''x'', Undefined] =
     [Emit 1 ''pass'' [Str ''x'', Undefined], Emit 0 ''pass'' [Str ''x'', Undefined],
      Emit 0 ''pass'' [Str ''x'', Undefined]]"
proof -
  let ?st = "stack (steps 2 (launch nested_passes))"
  let ?sub = "hd ?st" and ?parent = "hd (tl ?st)"
  have h: "?st = [] @ ?sub # ?parent # []" by code_simp
  have t: "tests (self ?parent) ! entry_of ?sub ?parent = (Str ''sub'', Queue two_passes)"
    by code_simp
  have fresh: "registered (self ?sub) = []" by code_simp
  from events_bubble[OF h] obtain name where
    e: "tests (self ?parent) ! entry_of ?sub ?parent = (name, Queue (self ?sub))"
    and p: "\<And>args. emit (?sub # ?parent # []) ''pass'' args =
        Emit (Suc (length ([]::frame list))) ''pass'' args #
        earlier ?sub (?parent # []) ''pass'' args @ emit (?parent # []) ''pass'' args"
    and s: "\<And>args. emit (?sub # ?parent # []) ''start'' args =
        Emit (Suc (length ([]::frame list))) ''start'' args #
        earlier ?sub (?parent # []) ''start'' args @ emit (?parent # []) ''start'' (name # args)"
    and f: "\<And>args. emit (?sub # ?parent # []) ''finish'' args =
        Emit (Suc (length ([]::frame list))) ''finish'' args #
        earlier ?sub (?parent # []) ''finish'' args @
        emit (?parent # []) ''finish'' [first_arg args, name]"
    and n: "registered (self ?sub) = [] \<longrightarrow>
        (\<forall>ev args. earlier ?sub (?parent # []) ev args = [])"
    by blast
  from e t have name: "name = Str ''sub''" by simp
  from n fresh have none: "\<And>ev args. earlier ?sub (?parent # []) ev args = []" by blast
  have st: "?st = ?sub # ?parent # []" using h by simp
  have a: "emit ?st ''pass'' [Str ''x'', Undefined] =
     [Emit 1 ''pass'' [Str ''x'', Undefined], Emit 0 ''pass'' [Str ''x'', Undefined]]"
    by (subst st) (simp add: p none emit_single)
  have b: "emit ?st ''start'' [] = [Emit 1 ''start'' [], Emit 0 ''start'' [Str ''sub'']]"
    by (subst st) (simp add: s none emit_single name)
  have c: "emit ?st ''finish'' [Obj \<lparr>passed = 2, failed = 0\<rparr>] =
     [Emit 1 ''finish'' [Obj \<lparr>passed = 2, failed = 0\<rparr>],
      Emit 0 ''finish'' [Obj \<lparr>passed = 2, failed = 0\<rparr>, Str ''sub'']]"
    by (subst st) (simp add: f none emit_single name first_arg_def)
  have d: "tests nested_passes ! 0 = (Str ''sub'', Queue two_passes)"
    "self ?sub = two_passes" by code_simp+
  let ?st2 = "stack (steps 2 (launch nested_passes_again))"
  let ?sub2 = "hd ?st2" and ?parent2 = "hd (tl ?st2)"
  have h2: "?st2 = [] @ ?sub2 # ?parent2 # []" by code_simp
  from events_bubble[OF h2] have
    p2: "\<And>args. emit (?sub2 # ?parent2 # []) ''pass'' args =
        Emit (Suc (length ([]::frame list))) ''pass'' args #
        earlier ?sub2 (?parent2 # []) ''pass'' args @ emit (?parent2 # []) ''pass'' args"
    by blast
  have e2: "earlier ?sub2 (?parent2 # []) ''pass'' [Str ''x'', Undefined] =
      [Emit 0 ''pass'' [Str ''x'', Undefined]]" by code_simp
  have st2: "?st2 = ?sub2 # ?parent2 # []" using h2 by simp
  have g: "emit ?st2 ''pass'' [Str ''x'', Undefined] =
     [Emit 1 ''pass'' [Str ''x'', Undefined], Emit 0 ''pass'' [Str ''x'', Undefined],
      Emit 0 ''pass'' [Str ''x'', Undefined]]"
    by (subst st2) (simp add: p2 e2 emit_single)
  from a b c d g h h2 show ?thesis by blast
qed


subsection \<open>C8: a queue whose entries all pass\<close>

text \<open>
  Claim C8, as amended. A queue of \<open>N\<close> test functions that all pass, with a setup
  and a teardown function that complete: the promise is fulfilled with \<open>N\<close>
  passed and none failed. With no entry the trace is the call of the setup
  function, \<^verbatim>\<open>start\<close>, \<^verbatim>\<open>finish\<close> with zero counts, the call of the teardown
  function and the fulfilment.
\<close>

theorem all_pass:
  assumes "\<forall>e\<in>set (tests q). passing e"
    and "completes (setupFn q)" "completes (teardownFn q)"
  shows "outcome (steps (length (tests q) + 3 + m) (launch q))
           = Fulfilled \<lparr>passed = length (tests q), failed = 0\<rparr> \<and>
         passed (hd (stack (steps (length (tests q) + 3 + m) (launch q)))) = length (tests q) \<and>
         failed (hd (stack (steps (length (tests q) + 3 + m) (launch q)))) = 0 \<and>
         trace (steps (length (tests q) + 3 + m) (launch q)) =
           [Setup 0, Emit 0 ''start'' []] @ entries_trace 0 (tests q) @
           [Emit 0 ''finish'' [Obj \<lparr>passed = length (tests q), failed = 0\<rparr>], Teardown 0,
            Settle 0 (Fulfilled \<lparr>passed = length (tests q), failed = 0\<rparr>)] \<and>
         (tests q = [] \<longrightarrow>
            trace (steps (3 + m) (launch q)) =
              [Setup 0, Emit 0 ''start'' [], Emit 0 ''finish'' [Obj \<lparr>passed = 0, failed = 0\<rparr>],
               Teardown 0, Settle 0 (Fulfilled \<lparr>passed = 0, failed = 0\<rparr>)])"
proof -
  have "\<forall>e\<in>set (tests q). passing e \<or> (failing e \<and> \<not> stopOnFail q)"
    using assms(1) by auto
  note fin = run_to_end[OF assms(2,3) this, of m]
  note cnt = filter_all_passing[OF assms(1)]
  have main: "steps (length (tests q) + 3 + m) (launch q) =
     \<lparr>stack = [\<lparr>passed = length (tests q), failed = 0,
                 self = q, listeners = registered q, cursor = length (tests q), awaiter = None\<rparr>],
      scheduled = [],
      trace = [Setup 0, Emit 0 ''start'' []] @ entries_trace 0 (tests q) @
              [Emit 0 ''finish'' [Obj \<lparr>passed = length (tests q), failed = 0\<rparr>],
               Teardown 0, Settle 0 (Fulfilled \<lparr>passed = length (tests q), failed = 0\<rparr>)],
      outcome = Fulfilled \<lparr>passed = length (tests q), failed = 0\<rparr>\<rparr>"
    using fin by (simp add: cnt)
  have "trace (steps (3 + m) (launch q)) =
              [Setup 0, Emit 0 ''start'' [], Emit 0 ''finish'' [Obj \<lparr>passed = 0, failed = 0\<rparr>],
               Teardown 0, Settle 0 (Fulfilled \<lparr>passed = 0, failed = 0\<rparr>)]" if "tests q = []"
    using main that by simp
  then show ?thesis by (simp add: main)
qed

theorem all_pass_witness:
  "tests two_passes = [(Str ''x'', Fn passes), (Str ''y'', Fn passes)] \<and>
   passing (Str ''x'', Fn passes) \<and> passing (Str ''y'', Fn passes) \<and>
   completes (setupFn two_passes) \<and> completes (teardownFn two_passes) \<and>
   outcome (steps 5 (launch two_passes)) = Fulfilled \<lparr>passed = 2, failed = 0\<rparr> \<and>
   tests (new_TestQueue None) = [] \<and>
   trace (steps 3 (launch (new_TestQueue None))) =
     [Setup 0, Emit 0 ''start'' [], Emit 0 ''finish'' [Obj \<lparr>passed = 0, failed = 0\<rparr>],
      Teardown 0, Settle 0 (Fulfilled \<lparr>passed = 0, failed = 0\<rparr>)]"
proof -
  have t: "tests two_passes = [(Str ''x'', Fn passes), (Str ''y'', Fn passes)]"
    by (simp add: two_passes_def new_TestQueue_def addTest_def)
  have h: "\<forall>e\<in>set (tests two_passes). passing e"
    "completes (setupFn two_passes)" "completes (teardownFn two_passes)"
    by (simp_all add: t passes_def new_Promise_def)
       (simp_all add: two_passes_def new_TestQueue_def addTest_def completes_def)
  have h0: "\<forall>e\<in>set (tests (new_TestQueue None)). passing e"
    "completes (setupFn (new_TestQueue None))" "completes (teardownFn (new_TestQueue None))"
    by (simp_all add: new_TestQueue_def completes_def)
  have pf: "passing (Str ''x'', Fn passes)" "passing (Str ''y'', Fn passes)"
    by (simp_all add: passes_def new_Promise_def)
  have t0: "tests (new_TestQueue None) = []" by (simp add: new_TestQueue_def)
  from all_pass[OF h, of 0] all_pass[OF h0, of 0] h(2,3) pf t0 show ?thesis
    by (simp add: t)
qed

text \<open>
  Claim C8 as stated counts entries. One nested queue of two passing tests is
  one entry that passes, and the promise is fulfilled with two passed. With a
  teardown function that throws the promise stays pending.
\<close>

theorem all_pass_counterexample:
  "length (tests nested_passes) = 1 \<and>
   Settle 1 (Fulfilled \<lparr>passed = 2, failed = 0\<rparr>) \<in> set (trace (steps 9 (launch nested_passes))) \<and>
   outcome (steps 9 (launch nested_passes)) = Fulfilled \<lparr>passed = 2, failed = 0\<rparr> \<and>
   tests (throwing_teardown two_passes) = [(Str ''x'', Fn passes), (Str ''y'', Fn passes)] \<and>
   passing (Str ''x'', Fn passes) \<and> passing (Str ''y'', Fn passes) \<and>
   scheduled (steps 4 (launch (throwing_teardown two_passes))) = [] \<and>
   outcome (steps 4 (launch (throwing_teardown two_passes))) = Pending"
  by code_simp


subsection \<open>C9: a setup function whose promise is rejected\<close>

text \<open>
  Claim C9. When the setup function returns a promise that is rejected, the
  promise of \<^verbatim>\<open>run\<close> stays pending for ever, and nothing but the call of the setup
  function happens: no \<^verbatim>\<open>start\<close> event, no entry dispatched, no call of the
  teardown function.
\<close>

theorem rejected_setup:
  assumes "setupFn q = Rejects e"
  shows "outcome (steps n (launch q)) = Pending \<and>
         trace (steps n (launch q)) = [Setup 0] \<and>
         (\<forall>d args. Emit d ''start'' args \<notin> set (trace (steps n (launch q)))) \<and>
         (\<forall>d i. Dispatch d i \<notin> set (trace (steps n (launch q)))) \<and>
         (\<forall>d. Teardown d \<notin> set (trace (steps n (launch q))))"
proof -
  have "scheduled (launch q) = []" using assms by (simp add: launch_state hook_then_def)
  then have "steps n (launch q) = launch q" by (rule steps_idle)
  then show ?thesis by (simp add: launch_state)
qed

theorem rejected_setup_witness:
  "setupFn (setup_with (Rejects (Error ''S'')) two_passes) = Rejects (Error ''S'') \<and>
   outcome (steps 9 (launch (setup_with (Rejects (Error ''S'')) two_passes))) = Pending \<and>
   trace (steps 9 (launch (setup_with (Rejects (Error ''S'')) two_passes))) = [Setup 0]"
proof -
  have h: "setupFn (setup_with (Rejects (Error ''S'')) two_passes) = Rejects (Error ''S'')"
    by (simp add: setup_with_def)
  from rejected_setup[OF h, of 9] h show ?thesis by simp
qed


subsection \<open>C10: a teardown function that fails\<close>

text \<open>
  Claim C10. When the teardown function throws or returns a promise that is
  rejected, the promise of \<^verbatim>\<open>run\<close> stays pending for ever; when the teardown
  function has been called, the \<^verbatim>\<open>finish\<close> event with the counters of the queue
  stands directly before that call in the trace.
\<close>

theorem failing_teardown:
  assumes "teardownFn q = Throws e \<or> teardownFn q = Rejects e"
  shows "outcome (steps n (launch q)) = Pending \<and>
         (Teardown 0 \<in> set (trace (steps n (launch q))) \<longrightarrow>
            (\<exists>pre. trace (steps n (launch q)) =
               pre @ [Emit 0 ''finish''
                        [Obj \<lparr>passed = passed (hd (stack (steps n (launch q)))),
                              failed = failed (hd (stack (steps n (launch q))))\<rparr>],
                      Teardown 0] \<and>
               Teardown 0 \<notin> set pre))"
proof -
  let ?s = "steps n (launch q)"
  from assms have "\<not> completes (teardownFn q)" by (auto simp: completes_def)
  from pending_steps[OF this, of n] have r: "run_of q ?s" and p: "outcome ?s = Pending" by auto
  have "\<exists>pre. trace ?s = pre @ [Emit 0 ''finish''
                        [Obj \<lparr>passed = passed (hd (stack ?s)), failed = failed (hd (stack ?s))\<rparr>],
                      Teardown 0] \<and> Teardown 0 \<notin> set pre"
    if t: "Teardown 0 \<in> set (trace ?s)"
  proof -
    have "final_action (Teardown 0)" by simp
    with t have "\<not> running ?s" unfolding running_def by blast
    moreover from p have "\<not> settled ?s" by (auto dest: phase_outcome)
    ultimately have "finishing ?s" using r by (auto simp: run_of_def)
    then obtain this pre where "stack ?s = [this]"
      "trace ?s = pre @ [Emit 0 ''finish'' [Obj \<lparr>passed = passed this, failed = failed this\<rparr>], Teardown 0]"
      "\<forall>a\<in>set pre. \<not> final_action a"
      by (auto simp: finishing_def)
    then show ?thesis by (intro exI[of _ pre]) auto
  qed
  with p show ?thesis by blast
qed

theorem failing_teardown_witness:
  "teardownFn (throwing_teardown two_passes) = Throws (Error ''T'') \<and>
   outcome (steps 7 (launch (throwing_teardown two_passes))) = Pending \<and>
   Teardown 0 \<in> set (trace (steps 7 (launch (throwing_teardown two_passes)))) \<and>
   (\<exists>pre. trace (steps 7 (launch (throwing_teardown two_passes))) =
       pre @ [Emit 0 ''finish'' [Obj \<lparr>passed = 2, failed = 0\<rparr>], Teardown 0] \<and>
       Teardown 0 \<notin> set pre)"
proof -
  have h: "teardownFn (throwing_teardown two_passes) = Throws (Error ''T'')"
    by code_simp
  have t: "Teardown 0 \<in> set (trace (steps 7 (launch (throwing_teardown two_passes))))"
    by code_simp
  have c: "passed (hd (stack (steps 7 (launch (throwing_teardown two_passes))))) = 2"
    "failed (hd (stack (steps 7 (launch (throwing_teardown two_passes))))) = 0"
    by code_simp+
  from failing_teardown[of "throwing_teardown two_passes" "Error ''T''" 7] h t
  show ?thesis unfolding c by blast
qed


end
